theory Spec2Isabelle
  imports Main "HOL-Library.Word"
begin

section \<open>Work-efficient scan and stream compaction (efficient.cu)\<close>

text \<open>
  The elements are C \<open>int\<close>s. They are modelled as 32-bit words, so that \<open>+\<close> wraps
  around as the device's addition does. The argument \<open>n\<close> of \<open>scan\<close> and \<open>compact\<close> is a
  C \<open>int\<close> as well and is read through \<open>sint\<close>. Array lengths, thread indices and level
  numbers are natural numbers inside the kernels: as soon as the padded length
  \<open>n_pad\<close> is representable as a non-negative \<open>int\<close>, every index the kernels compute
  stays below \<open>n_pad + block_size\<close>.
\<close>

type_synonym int32 = "32 word"

subsection \<open>Helpers of common.h and common.cu\<close>

text \<open>
  Modelled from the spec: \<open>ilog2ceil\<close> (common.h) is missing from the sources.
  The spec fixes it through \<open>nPad = 2^ceil(log2(n))\<close>: \<open>ilog2ceil x\<close> is the least \<open>k\<close>
  with \<open>x \<le> 2^k\<close> (lemmas \<open>ilog2ceil_ge\<close> and \<open>ilog2ceil_le\<close> below).
\<close>

fun ilog2ceil :: "nat \<Rightarrow> nat" where
  "ilog2ceil x = (if x \<le> 1 then 0 else Suc (ilog2ceil ((x + 1) div 2)))"

declare ilog2ceil.simps [simp del]

text \<open>
  Modelled from the spec: \<open>kernExtractLastElementPerBlock\<close> (common.cu) is missing from
  the sources. Spec: ``extract the last element of every group (the group totals)
  into the next level's input buffer''. Group \<open>b\<close> covers the indices from \<open>b * bdim\<close>
  up to \<open>min ((b + 1) * bdim) n - 1\<close>; there are \<open>ceil (n / bdim)\<close> groups, the grid size
  of the launch.
\<close>

definition kernExtractLastElementPerBlock :: "nat \<Rightarrow> nat \<Rightarrow> int32 list \<Rightarrow> int32 list" where
  "kernExtractLastElementPerBlock bdim n idata =
     map (\<lambda>b. idata ! (min ((b + 1) * bdim) n - 1)) [0..<(n + bdim - 1) div bdim]"

text \<open>
  Modelled from the spec: \<open>kernShiftToExclusive\<close> (common.cu) is missing from the
  sources. Spec: ``a one-position right-shift with 0 inserted at position 0''.
\<close>

definition kernShiftToExclusive :: "nat \<Rightarrow> int32 list \<Rightarrow> int32 list" where
  "kernShiftToExclusive n idata = map (\<lambda>gid. if gid = 0 then 0 else idata ! (gid - 1)) [0..<n]"

text \<open>
  Modelled from the spec: \<open>kernAddOffsetPerBlock\<close> (common.cu) is missing from the
  sources. Spec: ``broadcast each of the previous level's per-group offsets (one per group,
  taken from this level's exclusive output) onto every element of the corresponding group
  at the level below, by addition''.
\<close>

definition kernAddOffsetPerBlock :: "nat \<Rightarrow> nat \<Rightarrow> int32 list \<Rightarrow> int32 list \<Rightarrow> int32 list" where
  "kernAddOffsetPerBlock bdim n block_offset idata =
     map (\<lambda>gid. idata ! gid + block_offset ! (gid div bdim)) [0..<n]"

text \<open>
  Modelled from the spec: \<open>kernMapToBoolean\<close> (common.cu) is missing from the
  sources. Spec: ``\<open>mask[i] = 1\<close> if \<open>work[i] != 0\<close> else \<open>0\<close>, for every padded index''.
\<close>

definition kernMapToBoolean :: "nat \<Rightarrow> int32 list \<Rightarrow> int32 list" where
  "kernMapToBoolean n idata = map (\<lambda>gid. if idata ! gid \<noteq> 0 then 1 else 0) [0..<n]"

text \<open>
  Modelled from the spec: \<open>kernScatter\<close> (common.cu) is missing from the sources.
  Spec: ``for every index \<open>i\<close>, if \<open>mask[i] == 1\<close>, write \<open>work[i]\<close> into
  \<open>output[destIndex[i]]\<close>''. The threads are run one after the other; they write to
  distinct slots (see the theorem for the scatter destinations), so the order does not matter.
\<close>

definition scatter_thread :: "int32 list \<Rightarrow> int32 list \<Rightarrow> int32 list \<Rightarrow> nat \<Rightarrow> int32 list \<Rightarrow> int32 list" where
  "scatter_thread idata bools indices gid odata =
     (if bools ! gid = 1 then odata[nat (sint (indices ! gid)) := idata ! gid] else odata)"

definition kernScatter :: "nat \<Rightarrow> int32 list \<Rightarrow> int32 list \<Rightarrow> int32 list \<Rightarrow> int32 list \<Rightarrow> int32 list" where
  "kernScatter n odata idata bools indices = fold (scatter_thread idata bools indices) [0..<n] odata"

subsection \<open>The CUDA runtime calls the drivers use\<close>

text \<open>
  \<open>cudaMalloc\<close> does not initialise the memory it returns: the contents of allocation
  number \<open>a\<close> are given by a parameter \<open>garbage a\<close>, about which nothing is assumed.
  \<open>cudaMemcpy\<close> overwrites the first \<open>count\<close> elements of the destination, \<open>cudaMemset\<close>
  with value 0 zeroes them.
\<close>

definition cudaMalloc :: "(nat \<Rightarrow> nat \<Rightarrow> int32) \<Rightarrow> nat \<Rightarrow> nat \<Rightarrow> int32 list" where
  "cudaMalloc garbage a len = map (garbage a) [0..<len]"

definition cudaMemcpy :: "int32 list \<Rightarrow> int32 list \<Rightarrow> nat \<Rightarrow> int32 list" where
  "cudaMemcpy dst src count = take count src @ drop count dst"

definition cudaMemset0 :: "int32 list \<Rightarrow> nat \<Rightarrow> int32 list" where
  "cudaMemset0 dst count = replicate count 0 @ drop count dst"

subsection \<open>kernScanInclusive\<close>

text \<open>
  One thread \<open>gid = blockIdx.x * blockDim.x + threadIdx.x\<close> per element; the launches use
  \<open>ceil (n / blockDim.x)\<close> blocks, so the threads that pass the guard \<open>id < n\<close> are
  \<open>0, \<dots>, n - 1\<close>. Between two \<open>__syncthreads()\<close> the threads of a step are run one
  after the other: within a step the active threads (\<open>id % 2^(d+1) == 0\<close>) read and write
  disjoint slots, so every interleaving gives the same array. \<open>threadIdx.x\<close> is
  \<open>gid mod bdim\<close>. \<open>reduction_sum\<close> is a register of each thread. The barriers are
  taken to order the steps as the code expects, also in a block that \<open>n\<close> fills only
  in part.
\<close>

definition upsweep_thread :: "nat \<Rightarrow> nat \<Rightarrow> int32 list \<Rightarrow> int32 list" where
  "upsweep_thread d gid idata =
     (if gid mod 2 ^ (d + 1) = 0
      then idata[gid + 2 ^ (d + 1) - 1 := idata ! (gid + 2 ^ (d + 1) - 1) + idata ! (gid + 2 ^ d - 1)]
      else idata)"

definition upsweep :: "nat \<Rightarrow> nat \<Rightarrow> int32 list \<Rightarrow> int32 list" where
  "upsweep n log2n idata = fold (\<lambda>d. fold (upsweep_thread d) [0..<n]) [0..<log2n] idata"

definition downsweep_thread :: "nat \<Rightarrow> nat \<Rightarrow> int32 list \<Rightarrow> int32 list" where
  "downsweep_thread d gid idata =
     (if gid mod 2 ^ (d + 1) = 0
      then (let temp = idata ! (gid + 2 ^ d - 1);
                idata1 = idata[gid + 2 ^ d - 1 := idata ! (gid + 2 ^ (d + 1) - 1)]
            in idata1[gid + 2 ^ (d + 1) - 1 := idata1 ! (gid + 2 ^ (d + 1) - 1) + temp])
      else idata)"

definition downsweep :: "nat \<Rightarrow> nat \<Rightarrow> int32 list \<Rightarrow> int32 list" where
  "downsweep n log2n idata = fold (\<lambda>d. fold (downsweep_thread d) [0..<n]) (rev [0..<log2n]) idata"

definition is_last_thread :: "nat \<Rightarrow> nat \<Rightarrow> nat \<Rightarrow> bool" where
  "is_last_thread bdim n gid \<longleftrightarrow> gid mod bdim = bdim - 1 \<or> gid = n - 1"

definition clear_thread :: "nat \<Rightarrow> nat \<Rightarrow> nat \<Rightarrow> int32 list \<Rightarrow> int32 list" where
  "clear_thread bdim n gid idata = (if is_last_thread bdim n gid then idata[gid := 0] else idata)"

text \<open>The result is the pair \<open>(odata, idata)\<close> of the two buffers after the kernel.\<close>

definition kernScanInclusive :: "nat \<Rightarrow> nat \<Rightarrow> int32 list \<Rightarrow> int32 list \<times> int32 list" where
  "kernScanInclusive bdim n idata =
     (let log2n = ilog2ceil (min n bdim);
          up = upsweep n log2n idata;
          reduction_sum = map (\<lambda>gid. if is_last_thread bdim n gid then up ! gid else 0) [0..<n];
          cleared = fold (clear_thread bdim n) [0..<n] up;
          down = downsweep n log2n cleared;
          odata = map (\<lambda>gid. if is_last_thread bdim n gid then reduction_sum ! gid
                              else down ! (gid + 1)) [0..<n]
      in (odata, down))"

subsection \<open>The level hierarchy\<close>

text \<open>
  \<open>block_size\<close> stands for \<open>Common::block_size_efficient\<close>, a constant of common.h that
  is missing from the sources. The \<open>while\<close> loop that counts the levels need not
  terminate for every block size (it runs forever for \<open>block_size = 1\<close> and \<open>len > 1\<close>),
  so it is a partial function; \<open>count_scans_total\<close> shows that it returns for the block
  sizes and lengths the claims are about. Its arithmetic is \<open>unsigned int\<close>; the sums stay
  below \<open>2^32\<close> for \<open>len \<le> 2^31\<close> and \<open>block_size \<le> 2^31\<close>.
\<close>

partial_function (option) count_scans :: "nat \<Rightarrow> nat \<Rightarrow> nat \<Rightarrow> nat option" where
  "count_scans block_size num_scans len =
     (if (len + block_size - 1) div block_size > 1
      then count_scans block_size (num_scans + 1) ((len + block_size - 1) div block_size)
      else Some num_scans)"

declare count_scans.simps [code]

text \<open>\<open>array_sizes[i]\<close> for \<open>i < num_scans\<close>; \<open>grid_sizes[i]\<close> is the length of the next level.\<close>

fun level_sizes :: "nat \<Rightarrow> nat \<Rightarrow> nat \<Rightarrow> nat list" where
  "level_sizes block_size 0 len = []"
| "level_sizes block_size (Suc k) len =
     len # level_sizes block_size k ((len + block_size - 1) div block_size)"

record levels =
  dev_idata :: "int32 list list"
  dev_odata :: "int32 list list"
  dev_buffer :: "int32 list list"

definition alloc_levels :: "(nat \<Rightarrow> nat \<Rightarrow> int32) \<Rightarrow> nat \<Rightarrow> nat list \<Rightarrow> levels" where
  "alloc_levels garbage a0 array_sizes =
     \<lparr>dev_idata = map (\<lambda>i. cudaMalloc garbage (a0 + 3 * i) (array_sizes ! i)) [0..<length array_sizes],
      dev_odata = map (\<lambda>i. cudaMalloc garbage (a0 + 3 * i + 1) (array_sizes ! i)) [0..<length array_sizes],
      dev_buffer = map (\<lambda>i. cudaMalloc garbage (a0 + 3 * i + 2) (array_sizes ! i)) [0..<length array_sizes]\<rparr>"

text \<open>The body of the first \<open>for\<close> loop of the kernel invocations (the upward pass).\<close>

definition upward_step :: "nat \<Rightarrow> nat list \<Rightarrow> nat \<Rightarrow> nat \<Rightarrow> levels \<Rightarrow> levels" where
  "upward_step block_size array_sizes num_scans i s =
     (let (odata, idata) = kernScanInclusive block_size (array_sizes ! i) (dev_idata s ! i);
          s1 = s\<lparr>dev_buffer := (dev_buffer s)[i := odata], dev_idata := (dev_idata s)[i := idata]\<rparr>;
          s2 = s1\<lparr>dev_idata := (dev_idata s1)[i :=
                  cudaMemcpy (dev_idata s1 ! i) (dev_buffer s1 ! i) (array_sizes ! i)]\<rparr>
      in if i < num_scans - 1
         then s2\<lparr>dev_idata := (dev_idata s2)[i + 1 :=
                 kernExtractLastElementPerBlock block_size (array_sizes ! i) (dev_idata s2 ! i)]\<rparr>
         else s2)"

text \<open>The body of the second \<open>for\<close> loop (the downward pass), run for \<open>i = num_scans - 1, \<dots>, 0\<close>.\<close>

definition downward_step :: "nat \<Rightarrow> nat list \<Rightarrow> nat \<Rightarrow> levels \<Rightarrow> levels" where
  "downward_step block_size array_sizes i s =
     (let s1 = s\<lparr>dev_odata := (dev_odata s)[i :=
                  kernShiftToExclusive (array_sizes ! i) (dev_buffer s ! i)]\<rparr>
      in if i \<ge> 1
         then s1\<lparr>dev_buffer := (dev_buffer s1)[i - 1 :=
                 kernAddOffsetPerBlock block_size (array_sizes ! (i - 1)) (dev_odata s1 ! i)
                   (dev_idata s1 ! (i - 1))]\<rparr>
         else s1)"

definition upward_pass :: "nat \<Rightarrow> nat list \<Rightarrow> nat \<Rightarrow> levels \<Rightarrow> levels" where
  "upward_pass block_size array_sizes num_scans s =
     fold (upward_step block_size array_sizes num_scans) [0..<num_scans] s"

definition run_levels :: "nat \<Rightarrow> nat list \<Rightarrow> nat \<Rightarrow> levels \<Rightarrow> levels" where
  "run_levels block_size array_sizes num_scans s =
     fold (downward_step block_size array_sizes) (rev [0..<num_scans])
       (upward_pass block_size array_sizes num_scans s)"

subsection \<open>scan\<close>

text \<open>
  \<open>n_pad = 1 << ilog2ceil(n)\<close> is computed in \<open>int\<close>. For \<open>n > 2^30\<close> the shift gives
  \<open>2^31\<close>, which as an \<open>int\<close> is negative: the level-counting loop still runs (it
  converts \<open>len\<close> to \<open>unsigned\<close>), but the size handed to the first \<open>cudaMalloc\<close> is not
  the padded length, the allocation fails and no result is produced. Apart from that,
  device memory is taken to be large enough. A block size of 0 makes the first division
  a division by zero. \<open>None\<close> means that the call does not return.
\<close>

datatype failure = DivisionByZero | AllocationFailed

definition n_pad_of :: "int32 \<Rightarrow> int32" where
  "n_pad_of n = push_bit (ilog2ceil (nat (sint n))) 1"

text \<open>The device buffers after the allocations and the copy of the input (line 94).\<close>

definition scan_init :: "(nat \<Rightarrow> nat \<Rightarrow> int32) \<Rightarrow> nat list \<Rightarrow> nat \<Rightarrow> int32 list \<Rightarrow> levels" where
  "scan_init garbage array_sizes n idata =
     (let s0 = alloc_levels garbage 0 array_sizes
      in s0\<lparr>dev_idata := (dev_idata s0)[0 := cudaMemcpy (dev_idata s0 ! 0) idata n]\<rparr>)"

definition scan :: "nat \<Rightarrow> (nat \<Rightarrow> nat \<Rightarrow> int32) \<Rightarrow> int32 \<Rightarrow> int32 list \<Rightarrow> (failure + int32 list) option" where
  "scan block_size garbage n idata =
     (if sint n \<le> 0 then Some (Inr [])
      else if block_size = 0 then Some (Inl DivisionByZero)
      else case count_scans block_size 1 (unat (n_pad_of n)) of
        None \<Rightarrow> None
      | Some num_scans \<Rightarrow>
          if sint (n_pad_of n) < 0 then Some (Inl AllocationFailed)
          else
            let array_sizes = level_sizes block_size num_scans (unat (n_pad_of n));
                s1 = scan_init garbage array_sizes (nat (sint n)) idata;
                s2 = run_levels block_size array_sizes num_scans s1
            in Some (Inr (take (nat (sint n)) (dev_odata s2 ! 0))))"

subsection \<open>compact\<close>

text \<open>
  The device buffers of \<open>compact\<close> when the kernels are done (line 222): the padded input,
  the mask, the destination indices \<open>dev_oIndices[0]\<close> and the scattered output.
  \<open>compact\<close> repeats the two loops of \<open>scan\<close> on \<open>dev_iIndices\<close>, \<open>dev_oIndices\<close> and
  \<open>dev_buffer\<close>.
\<close>

record compact_buffers =
  c_idata :: "int32 list"
  c_bools :: "int32 list"
  c_indices :: "int32 list"
  c_odata :: "int32 list"

definition compact_idata :: "(nat \<Rightarrow> nat \<Rightarrow> int32) \<Rightarrow> nat \<Rightarrow> nat \<Rightarrow> int32 list \<Rightarrow> int32 list" where
  "compact_idata garbage n_pad n idata =
     cudaMemcpy (cudaMemset0 (cudaMalloc garbage 0 n_pad) n_pad) idata n"

definition compact_kernels ::
  "nat \<Rightarrow> (nat \<Rightarrow> nat \<Rightarrow> int32) \<Rightarrow> int32 \<Rightarrow> int32 list \<Rightarrow> (failure + compact_buffers) option" where
  "compact_kernels block_size garbage n idata =
     (if block_size = 0 then Some (Inl DivisionByZero)
      else case count_scans block_size 1 (unat (n_pad_of n)) of
        None \<Rightarrow> None
      | Some num_scans \<Rightarrow>
          if sint (n_pad_of n) < 0 then Some (Inl AllocationFailed)
          else
            let n_pad = unat (n_pad_of n);
                dev_idata0 = compact_idata garbage n_pad (nat (sint n)) idata;
                dev_odata0 = cudaMalloc garbage 1 n_pad;
                array_sizes = level_sizes block_size num_scans n_pad;
                s0 = alloc_levels garbage 3 array_sizes;
                dev_bools = kernMapToBoolean n_pad dev_idata0;
                s1 = s0\<lparr>dev_idata := (dev_idata s0)[0 := cudaMemcpy (dev_idata s0 ! 0) dev_bools n_pad]\<rparr>;
                s2 = run_levels block_size array_sizes num_scans s1;
                dev_odata1 = kernScatter n_pad dev_odata0 dev_idata0 dev_bools (dev_odata s2 ! 0)
            in Some (Inr \<lparr>c_idata = dev_idata0, c_bools = dev_bools,
                           c_indices = dev_odata s2 ! 0, c_odata = dev_odata1\<rparr>))"

definition compact ::
  "nat \<Rightarrow> (nat \<Rightarrow> nat \<Rightarrow> int32) \<Rightarrow> int32 \<Rightarrow> int32 list \<Rightarrow> (failure + int32 list \<times> int32) option" where
  "compact block_size garbage n idata =
     (if sint n \<le> 0 then Some (Inr ([], n))
      else case compact_kernels block_size garbage n idata of
        None \<Rightarrow> None
      | Some (Inl f) \<Rightarrow> Some (Inl f)
      | Some (Inr r) \<Rightarrow>
          let odata = take (nat (sint n)) (c_odata r);
              indices = take (nat (sint n)) (c_indices r);
              bools = take (nat (sint n)) (c_bools r);
              compact_len = indices ! (nat (sint n) - 1) + bools ! (nat (sint n) - 1)
          in Some (Inr (odata, compact_len)))"

subsection \<open>Reference notions\<close>

text \<open>Sums of a slice, and the exclusive and inclusive prefix sums of a whole array.\<close>

definition psum :: "int32 list \<Rightarrow> nat \<Rightarrow> nat \<Rightarrow> int32" where
  "psum x l r = (\<Sum>j = l..<r. x ! j)"

definition excl_scan :: "int32 list \<Rightarrow> int32 list" where
  "excl_scan x = map (\<lambda>i. psum x 0 i) [0..<length x]"

definition incl_scan :: "int32 list \<Rightarrow> int32 list" where
  "incl_scan x = map (\<lambda>i. psum x 0 (i + 1)) [0..<length x]"

text \<open>
  The single-level algorithm of the spec's cross-level consistency property, written from
  the spec's section 4.1 and independent of the code above: one group holds the whole
  array, zero-extended to \<open>nPad = 2^ceil(log2(n))\<close>, a natural number without the limit of
  an \<open>int\<close>. In the upsweep, for \<open>d\<close> from 0 to \<open>log2(groupSize) - 1\<close>, every index \<open>i\<close>
  with \<open>i mod 2^(d+1) = 0\<close> adds the element at offset \<open>2^d - 1\<close> into the slot at offset
  \<open>2^(d+1) - 1\<close>. The last slot then holds the total: it is captured and the slot cleared.
  In the downsweep, for \<open>d\<close> from \<open>log2(groupSize) - 1\<close> down to 0, at every such index the
  value at offset \<open>2^d - 1\<close> is swapped forward and the slot at offset \<open>2^(d+1) - 1\<close>
  accumulates it. The in-group routine emits the inclusive scan: the results shifted by one
  position, with the captured total in the last slot. The single level is then turned into
  the exclusive form by a right shift with 0 inserted at position 0, and truncated to \<open>n\<close>.
\<close>

definition spec_upsweep_step :: "nat \<Rightarrow> int32 list \<Rightarrow> int32 list" where
  "spec_upsweep_step d a =
     fold (\<lambda>i a. a[i + 2 ^ (d + 1) - 1 := a ! (i + 2 ^ (d + 1) - 1) + a ! (i + 2 ^ d - 1)])
       (filter (\<lambda>i. i mod 2 ^ (d + 1) = 0) [0..<length a]) a"

definition spec_downsweep_step :: "nat \<Rightarrow> int32 list \<Rightarrow> int32 list" where
  "spec_downsweep_step d a =
     fold (\<lambda>i a. a[i + 2 ^ d - 1 := a ! (i + 2 ^ (d + 1) - 1),
                    i + 2 ^ (d + 1) - 1 := a ! (i + 2 ^ (d + 1) - 1) + a ! (i + 2 ^ d - 1)])
       (filter (\<lambda>i. i mod 2 ^ (d + 1) = 0) [0..<length a]) a"

definition spec_in_group_scan :: "int32 list \<Rightarrow> int32 list" where
  "spec_in_group_scan a =
     (let log2_size = ilog2ceil (length a);
          up = fold spec_upsweep_step [0..<log2_size] a;
          total = up ! (length a - 1);
          cleared = up[length a - 1 := 0];
          down = fold spec_downsweep_step (rev [0..<log2_size]) cleared
      in drop 1 down @ [total])"

definition single_level_scan :: "nat \<Rightarrow> int32 list \<Rightarrow> int32 list" where
  "single_level_scan n x =
     (let n_pad = 2 ^ ilog2ceil n;
          padded = take n x @ replicate (n_pad - n) 0;
          inclusive = spec_in_group_scan padded
      in take n (0 # butlast inclusive))"

subsection \<open>Notions used in the proofs\<close>

text \<open>The bodies of the two sweeps with the strides \<open>P = 2^d\<close> and \<open>Q = 2^(d+1)\<close> abstracted.\<close>

definition up_body :: "nat \<Rightarrow> nat \<Rightarrow> nat \<Rightarrow> int32 list \<Rightarrow> int32 list" where
  "up_body P Q gid a = (if Q dvd gid then a[gid + Q - 1 := a ! (gid + Q - 1) + a ! (gid + P - 1)] else a)"

definition down_body :: "nat \<Rightarrow> nat \<Rightarrow> nat \<Rightarrow> int32 list \<Rightarrow> int32 list" where
  "down_body P Q gid a =
     (if Q dvd gid
      then a[gid + P - 1 := a ! (gid + Q - 1), gid + Q - 1 := a ! (gid + Q - 1) + a ! (gid + P - 1)]
      else a)"

text \<open>The array after \<open>d\<close> steps of the upsweep, and after the downsweep has come down to step \<open>d\<close>.\<close>

definition up_inv :: "int32 list \<Rightarrow> nat \<Rightarrow> int32 list \<Rightarrow> bool" where
  "up_inv x d a \<longleftrightarrow> length a = length x \<and>
     (\<forall>i<length x. \<forall>t\<le>d. 2 ^ t dvd (i + 1) \<longrightarrow> (t = d \<or> \<not> 2 ^ (t + 1) dvd (i + 1)) \<longrightarrow>
        a ! i = psum x (i + 1 - 2 ^ t) (i + 1))"

definition down_inv :: "int32 list \<Rightarrow> nat \<Rightarrow> nat \<Rightarrow> int32 list \<Rightarrow> bool" where
  "down_inv x B d a \<longleftrightarrow> length a = length x \<and>
     (\<forall>i<length x.
        (2 ^ d dvd (i + 1) \<longrightarrow> a ! i = psum x ((i div B) * B) (i + 1 - 2 ^ d)) \<and>
        (\<forall>t<d. 2 ^ t dvd (i + 1) \<longrightarrow> \<not> 2 ^ (t + 1) dvd (i + 1) \<longrightarrow>
           a ! i = psum x (i + 1 - 2 ^ t) (i + 1)))"

text \<open>Prefix sums within each group, the group totals, and the input of level \<open>j\<close>.\<close>

definition incl_blocks :: "nat \<Rightarrow> int32 list \<Rightarrow> int32 list" where
  "incl_blocks bs x = map (\<lambda>i. psum x ((i div bs) * bs) (i + 1)) [0..<length x]"

definition excl_blocks :: "nat \<Rightarrow> int32 list \<Rightarrow> int32 list" where
  "excl_blocks bs x = map (\<lambda>i. psum x ((i div bs) * bs) i) [0..<length x]"

definition block_totals :: "nat \<Rightarrow> int32 list \<Rightarrow> int32 list" where
  "block_totals bs x = map (\<lambda>b. psum x (b * bs) (b * bs + bs)) [0..<length x div bs]"

fun lvl :: "nat \<Rightarrow> int32 list \<Rightarrow> nat \<Rightarrow> int32 list" where
  "lvl bs x 0 = x"
| "lvl bs x (Suc j) = block_totals bs (lvl bs x j)"

definition ceil_div :: "nat \<Rightarrow> nat \<Rightarrow> nat" where
  "ceil_div block_size len = (len + block_size - 1) div block_size"

text \<open>
  A hierarchy of \<open>M + 1\<close> levels over \<open>2^e\<close> elements with groups of \<open>2^k\<close>: every level
  but the last has more than one group, the last level fits into one.
\<close>

definition hier :: "nat \<Rightarrow> nat \<Rightarrow> nat \<Rightarrow> bool" where
  "hier k e M \<longleftrightarrow> 0 < k \<and> (M = 0 \<or> M * k < e) \<and> e \<le> (M + 1) * k"

definition dev_lengths :: "nat \<Rightarrow> levels \<Rightarrow> bool" where
  "dev_lengths N s \<longleftrightarrow> length (dev_idata s) = N \<and> length (dev_odata s) = N \<and> length (dev_buffer s) = N"

text \<open>The loop invariants of the upward and of the downward pass.\<close>

definition up_ok :: "nat \<Rightarrow> int32 list \<Rightarrow> nat \<Rightarrow> nat \<Rightarrow> levels \<Rightarrow> bool" where
  "up_ok bs x N i s \<longleftrightarrow> dev_lengths N s \<and>
     (\<forall>j<i. dev_buffer s ! j = incl_blocks bs (lvl bs x j) \<and> dev_idata s ! j = incl_blocks bs (lvl bs x j)) \<and>
     (i < N \<longrightarrow> dev_idata s ! i = lvl bs x i)"

definition down_ok :: "nat \<Rightarrow> int32 list \<Rightarrow> nat \<Rightarrow> nat \<Rightarrow> levels \<Rightarrow> bool" where
  "down_ok bs x N i s \<longleftrightarrow> dev_lengths N s \<and>
     (\<forall>j<N. dev_idata s ! j = incl_blocks bs (lvl bs x j)) \<and>
     (\<forall>j. j + 1 < i \<longrightarrow> dev_buffer s ! j = incl_blocks bs (lvl bs x j)) \<and>
     (0 < i \<longrightarrow> dev_buffer s ! (i - 1) = incl_scan (lvl bs x (i - 1))) \<and>
     (\<forall>j. i \<le> j \<and> j < N \<longrightarrow> dev_odata s ! j = excl_scan (lvl bs x j))"

text \<open>The mask of an array and the number of its nonzero elements.\<close>

definition mask_of :: "int32 list \<Rightarrow> int32 list" where
  "mask_of x = map (\<lambda>v. if v \<noteq> 0 then 1 else 0) x"

definition count_nz :: "int32 list \<Rightarrow> nat" where
  "count_nz x = length (filter (\<lambda>v. v \<noteq> 0) x)"

text \<open>Device memory that holds 7 in every cell, for the examples.\<close>

definition garbage7 :: "nat \<Rightarrow> nat \<Rightarrow> int32" where
  "garbage7 a j = 7"


section \<open>Lemmas\<close>

subsection \<open>One step of a sweep, thread by thread\<close>

text \<open>
  The active threads of a step touch disjoint slots: running them in sequence gives, slot
  by slot, what the step does in parallel.
\<close>

lemma dvd_gap: "(q::nat) dvd m \<Longrightarrow> q dvd j \<Longrightarrow> m < j \<Longrightarrow> m + q \<le> j"
proof -
  assume a: "q dvd m" "q dvd j" "m < j"
  then obtain k l where kl: "m = q * k" "j = q * l" by (auto elim!: dvdE)
  with a have "k < l" by (metis mult_less_cancel1)
  then have "Suc k \<le> l" by simp
  then have "q * Suc k \<le> q * l" by (rule mult_le_mono2)
  with kl show ?thesis by simp
qed

lemma not_dvd_shift: "0 < p \<Longrightarrow> p < q \<Longrightarrow> (q::nat) dvd m \<Longrightarrow> \<not> q dvd (m + p)"
  by (simp add: dvd_add_right_iff nat_dvd_not_less)

lemma upsweep_thread_body: "upsweep_thread d = up_body (2 ^ d) (2 ^ (d + 1))"
  by (intro ext) (simp add: upsweep_thread_def up_body_def mod_eq_0_iff_dvd)

lemma length_up_body [simp]: "length (up_body P Q gid a) = length a"
  by (simp add: up_body_def)

lemma length_fold_up_body [simp]: "length (fold (up_body P Q) ids a) = length a"
  by (induction ids arbitrary: a) simp_all

lemma up_body_partial:
  assumes PQ: "0 < P" "Q = P + P" and q: "Q dvd length a" and m: "m \<le> length a"
  shows "i < length a \<Longrightarrow> fold (up_body P Q) [0..<m] a ! i =
         (if Q dvd (i + 1) \<and> i + 1 < m + Q then a ! i + a ! (i - P) else a ! i)"
  using m
proof (induction m arbitrary: i)
  case 0
  have "\<not> (Q dvd (i + 1) \<and> i + 1 < 0 + Q)"
    using nat_dvd_not_less[of "i + 1" Q] by auto
  then show ?case by auto
next
  case (Suc m)
  define r where "r = fold (up_body P Q) [0..<m] a"
  have PQ': "P < Q" using PQ by simp
  have lr: "length r = length a" by (simp add: r_def)
  have IH: "\<And>j. j < length a \<Longrightarrow> r ! j =
      (if Q dvd (j + 1) \<and> j + 1 < m + Q then a ! j + a ! (j - P) else a ! j)"
    using Suc.IH Suc.prems(2) by (simp add: r_def)
  have step: "fold (up_body P Q) [0..<Suc m] a =
      (if Q dvd m then r[m + Q - 1 := r ! (m + Q - 1) + r ! (m + P - 1)] else r)"
    by (simp add: r_def up_body_def)
  have goal: "(if Q dvd m then r[m + Q - 1 := r ! (m + Q - 1) + r ! (m + P - 1)] else r) ! i =
      (if Q dvd (i + 1) \<and> i + 1 < Suc m + Q then a ! i + a ! (i - P) else a ! i)"
  proof (cases "Q dvd m")
    case False
    have "\<not> (Q dvd (i + 1) \<and> i + 1 = m + Q)"
      using False by (metis dvd_add_left_iff dvd_refl)
    then have "(Q dvd (i + 1) \<and> i + 1 < Suc m + Q) = (Q dvd (i + 1) \<and> i + 1 < m + Q)"
      by auto
    with False IH[OF Suc.prems(1)] show ?thesis by simp
  next
    case True
    with q Suc.prems(2) have mQ: "m + Q \<le> length a"
      by (intro dvd_gap) auto
    have "\<not> (Q dvd (m + Q - 1 + 1) \<and> m + Q - 1 + 1 < m + Q)" using PQ by auto
    then have r1: "r ! (m + Q - 1) = a ! (m + Q - 1)"
      using IH[of "m + Q - 1"] mQ PQ by simp
    have "\<not> Q dvd (m + P)" using PQ PQ' True by (intro not_dvd_shift) auto
    then have "\<not> (Q dvd (m + P - 1 + 1) \<and> m + P - 1 + 1 < m + Q)" using PQ by simp
    then have r2: "r ! (m + P - 1) = a ! (m + P - 1)"
      using IH[of "m + P - 1"] mQ PQ by simp
    show ?thesis
    proof (cases "i = m + Q - 1")
      case eq: True
      have "Q dvd (i + 1)" "i + 1 < Suc m + Q" "i - P = m + P - 1"
        using eq PQ True by simp_all
      with eq True r1 r2 lr mQ PQ show ?thesis by simp
    next
      case ne: False
      then have "(Q dvd (i + 1) \<and> i + 1 < Suc m + Q) = (Q dvd (i + 1) \<and> i + 1 < m + Q)"
        using PQ by auto
      with ne True IH[OF Suc.prems(1)] show ?thesis by simp
    qed
  qed
  show ?case using goal unfolding step .
qed

lemma upsweep_step:
  assumes "2 ^ (d + 1) dvd length a" "i < length a"
  shows "fold (upsweep_thread d) [0..<length a] a ! i =
         (if 2 ^ (d + 1) dvd (i + 1) then a ! i + a ! (i - 2 ^ d) else a ! i)"
proof -
  have "0 < (2::nat) ^ (d + 1)" by simp
  then have "i + 1 < length a + 2 ^ (d + 1)" using assms(2) by linarith
  then show ?thesis
    using up_body_partial[of "2 ^ d" "2 ^ (d + 1)" a "length a" i] assms
    unfolding upsweep_thread_body by simp
qed

lemma downsweep_thread_body:
  "length a = n \<Longrightarrow> 2 ^ (d + 1) dvd n \<Longrightarrow> gid < n \<Longrightarrow>
   downsweep_thread d gid a = down_body (2 ^ d) (2 ^ (d + 1)) gid a"
proof -
  assume a: "length a = n" "2 ^ (d + 1) dvd n" "gid < n"
  show ?thesis
  proof (cases "2 ^ (d + 1) dvd gid")
    case False
    then show ?thesis by (simp add: downsweep_thread_def down_body_def mod_eq_0_iff_dvd)
  next
    case True
    with a have "gid + 2 ^ (d + 1) \<le> n" by (intro dvd_gap) auto
    moreover have "0 < (2::nat) ^ d" "(2::nat) ^ (d + 1) = 2 ^ d + 2 ^ d" by simp_all
    ultimately have "gid + 2 ^ (d + 1) - 1 < length a" "gid + 2 ^ d - 1 \<noteq> gid + 2 ^ (d + 1) - 1"
      using a by linarith+
    with True show ?thesis
      by (simp add: downsweep_thread_def down_body_def mod_eq_0_iff_dvd Let_def)
  qed
qed

lemma length_down_body [simp]: "length (down_body P Q gid a) = length a"
  by (simp add: down_body_def)

lemma length_fold_down_body [simp]: "length (fold (down_body P Q) ids a) = length a"
  by (induction ids arbitrary: a) simp_all

lemma length_downsweep_thread [simp]: "length (downsweep_thread d gid a) = length a"
  by (simp add: downsweep_thread_def Let_def)

lemma length_fold_downsweep [simp]: "length (fold (downsweep_thread d) ids a) = length a"
  by (induction ids arbitrary: a) simp_all

lemma fold_cong_upt:
  "(\<And>gid s. gid < m \<Longrightarrow> Inv s \<Longrightarrow> f gid s = g gid s \<and> Inv (g gid s)) \<Longrightarrow> Inv a \<Longrightarrow>
   fold f [0..<m] a = fold g [0..<m] a \<and> Inv (fold g [0..<m] a)"
  by (induction m) auto

lemma fold_downsweep_body:
  assumes "2 ^ (d + 1) dvd length a"
  shows "fold (downsweep_thread d) [0..<length a] a = fold (down_body (2 ^ d) (2 ^ (d + 1))) [0..<length a] a"
  using fold_cong_upt[of "length a" "\<lambda>s. length s = length a" "downsweep_thread d"
      "down_body (2 ^ d) (2 ^ (d + 1))" a] assms
  by (simp add: downsweep_thread_body)

lemma down_body_partial:
  assumes PQ: "0 < P" "Q = P + P" and q: "Q dvd length a" and m: "m \<le> length a"
  shows "i < length a \<Longrightarrow> fold (down_body P Q) [0..<m] a ! i =
         (if Q dvd (i + 1) \<and> i + 1 < m + Q then a ! i + a ! (i - P)
          else if Q dvd (i + 1 + P) \<and> i + 1 + P < m + Q then a ! (i + P) else a ! i)"
  using m
proof (induction m arbitrary: i)
  case 0
  have "\<not> (Q dvd (i + 1) \<and> i + 1 < 0 + Q)" "\<not> (Q dvd (i + 1 + P) \<and> i + 1 + P < 0 + Q)"
    using nat_dvd_not_less[of "i + 1" Q] nat_dvd_not_less[of "i + 1 + P" Q] by auto
  then show ?case by auto
next
  case (Suc m)
  define r where "r = fold (down_body P Q) [0..<m] a"
  have PQ': "P < Q" "0 < Q" using PQ by simp_all
  have lr: "length r = length a" by (simp add: r_def)
  have IH: "\<And>j. j < length a \<Longrightarrow> r ! j =
      (if Q dvd (j + 1) \<and> j + 1 < m + Q then a ! j + a ! (j - P)
       else if Q dvd (j + 1 + P) \<and> j + 1 + P < m + Q then a ! (j + P) else a ! j)"
    using Suc.IH Suc.prems(2) by (simp add: r_def)
  have step: "fold (down_body P Q) [0..<Suc m] a = down_body P Q m r"
    by (simp add: r_def)
  have goal: "down_body P Q m r ! i =
      (if Q dvd (i + 1) \<and> i + 1 < Suc m + Q then a ! i + a ! (i - P)
       else if Q dvd (i + 1 + P) \<and> i + 1 + P < Suc m + Q then a ! (i + P) else a ! i)"
  proof (cases "Q dvd m")
    case False
    have "\<not> (Q dvd (i + 1) \<and> i + 1 = m + Q)" "\<not> (Q dvd (i + 1 + P) \<and> i + 1 + P = m + Q)"
      using False by (metis dvd_add_left_iff dvd_refl)+
    then have "(Q dvd (i + 1) \<and> i + 1 < Suc m + Q) = (Q dvd (i + 1) \<and> i + 1 < m + Q)"
       "(Q dvd (i + 1 + P) \<and> i + 1 + P < Suc m + Q) = (Q dvd (i + 1 + P) \<and> i + 1 + P < m + Q)"
      by auto
    with False IH[OF Suc.prems(1)] show ?thesis by (simp add: down_body_def)
  next
    case True
    with q Suc.prems(2) have mQ: "m + Q \<le> length a"
      by (intro dvd_gap) auto
    have nd: "\<not> Q dvd (m + P)" "\<not> Q dvd (m + Q + P)"
      using PQ PQ' True not_dvd_shift[of P Q m] not_dvd_shift[of P Q "m + Q"] by auto
    have "\<not> (Q dvd (m + Q - 1 + 1) \<and> m + Q - 1 + 1 < m + Q)"
         "\<not> (Q dvd (m + Q - 1 + 1 + P) \<and> m + Q - 1 + 1 + P < m + Q)" using PQ by auto
    then have r1: "r ! (m + Q - 1) = a ! (m + Q - 1)"
      using IH[of "m + Q - 1"] mQ PQ by simp
    have "\<not> (Q dvd (m + P - 1 + 1) \<and> m + P - 1 + 1 < m + Q)"
         "\<not> (Q dvd (m + P - 1 + 1 + P) \<and> m + P - 1 + 1 + P < m + Q)" using PQ nd by auto
    then have r2: "r ! (m + P - 1) = a ! (m + P - 1)"
      using IH[of "m + P - 1"] mQ PQ by simp
    have db: "down_body P Q m r = r[m + P - 1 := a ! (m + Q - 1), m + Q - 1 := a ! (m + Q - 1) + a ! (m + P - 1)]"
      using True r1 r2 by (simp add: down_body_def)
    consider (hi) "i = m + Q - 1" | (lo) "i = m + P - 1" | (other) "i \<noteq> m + Q - 1" "i \<noteq> m + P - 1"
      by blast
    then show ?thesis
    proof cases
      case hi
      have c: "Q dvd (i + 1)" "i + 1 < Suc m + Q" "i - P = m + P - 1"
        using hi PQ True by simp_all
      have lhs: "down_body P Q m r ! i = a ! (m + Q - 1) + a ! (m + P - 1)"
        unfolding db using hi lr mQ PQ by simp
      have rhs: "(if Q dvd (i + 1) \<and> i + 1 < Suc m + Q then a ! i + a ! (i - P)
          else if Q dvd (i + 1 + P) \<and> i + 1 + P < Suc m + Q then a ! (i + P) else a ! i)
          = a ! i + a ! (i - P)"
        using c(1,2) by simp
      have "a ! (m + Q - 1) + a ! (m + P - 1) = a ! i + a ! (i - P)"
        unfolding c(3) using hi by simp
      with lhs rhs show ?thesis by (simp only:)
    next
      case lo
      have i1: "i + 1 = m + P" "i + 1 + P = m + Q" using lo PQ by linarith+
      have "Q dvd (m + Q)" using True by simp
      then have c2: "Q dvd (i + 1 + P)" by (metis i1(2))
      have c1: "\<not> Q dvd (i + 1)" by (metis nd(1) i1(1))
      have c3: "i + 1 + P < Suc m + Q" "i + P = m + Q - 1" "i \<noteq> m + Q - 1"
        using i1 PQ by linarith+
      have "i < length r" using lr mQ c3 PQ' by linarith
      then have lhs: "down_body P Q m r ! i = a ! (m + Q - 1)"
        unfolding db using lo c3(3) by simp
      have rhs: "(if Q dvd (i + 1) \<and> i + 1 < Suc m + Q then a ! i + a ! (i - P)
          else if Q dvd (i + 1 + P) \<and> i + 1 + P < Suc m + Q then a ! (i + P) else a ! i)
          = a ! (i + P)"
        using c1 c2 c3(1) by simp
      have "a ! (m + Q - 1) = a ! (i + P)"
        unfolding c3(2) ..
      with lhs rhs show ?thesis by (simp only:)
    next
      case other
      then have "(Q dvd (i + 1) \<and> i + 1 < Suc m + Q) = (Q dvd (i + 1) \<and> i + 1 < m + Q)"
        "(Q dvd (i + 1 + P) \<and> i + 1 + P < Suc m + Q) = (Q dvd (i + 1 + P) \<and> i + 1 + P < m + Q)"
        using PQ by auto
      with other IH[OF Suc.prems(1)] show ?thesis unfolding db by simp
    qed
  qed
  show ?case using goal unfolding step .
qed

lemma downsweep_step:
  assumes "2 ^ (d + 1) dvd length a" "i < length a"
  shows "fold (downsweep_thread d) [0..<length a] a ! i =
         (if 2 ^ (d + 1) dvd (i + 1) then a ! i + a ! (i - 2 ^ d)
          else if 2 ^ (d + 1) dvd (i + 1 + 2 ^ d) then a ! (i + 2 ^ d) else a ! i)"
proof -
  have "0 < (2::nat) ^ (d + 1)" by simp
  then have l1: "i + 1 < length a + 2 ^ (d + 1)" using assms(2) by linarith
  have "(2::nat) ^ (d + 1) = 2 ^ d + 2 ^ d" "0 < (2::nat) ^ d" by simp_all
  then have l2: "i + 1 + 2 ^ d < length a + 2 ^ (d + 1)" using assms(2) by linarith
  show ?thesis
    using down_body_partial[of "2 ^ d" "2 ^ (d + 1)" a "length a" i] assms l1 l2
    unfolding fold_downsweep_body[OF assms(1)] by simp
qed

lemma length_fold_clear [simp]: "length (fold (clear_thread bdim n) ids a) = length a"
  by (induction ids arbitrary: a) (simp_all add: clear_thread_def)

lemma clear_step:
  "i < length a \<Longrightarrow> fold (clear_thread bdim n) [0..<m] a ! i =
     (if is_last_thread bdim n i \<and> i < m then 0 else a ! i)"
proof (induction m)
  case 0
  then show ?case by simp
next
  case (Suc m)
  define r where "r = fold (clear_thread bdim n) [0..<m] a"
  have lr: "length r = length a" by (simp add: r_def)
  have IH: "r ! i = (if is_last_thread bdim n i \<and> i < m then 0 else a ! i)"
    using Suc by (simp add: r_def)
  have step: "fold (clear_thread bdim n) [0..<Suc m] a = clear_thread bdim n m r"
    by (simp add: r_def)
  show ?case
  proof (cases "i = m")
    case True
    with Suc.prems IH lr show ?thesis unfolding step by (simp add: clear_thread_def)
  next
    case False
    with Suc.prems IH lr show ?thesis unfolding step by (auto simp: clear_thread_def)
  qed
qed

subsection \<open>The invariants of the upsweep and of the downsweep\<close>

lemma psum_empty [simp]: "psum x l l = 0"
  by (simp add: psum_def)

lemma psum_single: "psum x i (i + 1) = x ! i"
  by (simp add: psum_def)

lemma psum_split: "l \<le> m \<Longrightarrow> m \<le> r \<Longrightarrow> psum x l m + psum x m r = psum x l r"
  by (simp add: psum_def sum.atLeastLessThan_concat)

lemma psum_Suc: "l \<le> r \<Longrightarrow> psum x l (Suc r) = psum x l r + x ! r"
  by (simp add: psum_def)

lemma pow2_dvd_mono: "t \<le> d \<Longrightarrow> (2::nat) ^ t dvd 2 ^ d"
  by (rule le_imp_power_dvd)

lemma up_inv_0: "up_inv x 0 x"
  using psum_single by (simp add: up_inv_def)

lemma up_inv_step:
  assumes inv: "up_inv x d a" and q: "2 ^ (d + 1) dvd length x"
  shows "up_inv x (d + 1) (fold (upsweep_thread d) [0..<length x] a)"
proof -
  define P :: nat where "P = 2 ^ d"
  define Q :: nat where "Q = 2 ^ (d + 1)"
  have PQ: "0 < P" "Q = P + P" "P dvd Q" by (simp_all add: P_def Q_def)
  have la: "length a = length x" using inv by (simp add: up_inv_def)
  have IH: "\<And>i t. i < length x \<Longrightarrow> t \<le> d \<Longrightarrow> 2 ^ t dvd (i + 1) \<Longrightarrow>
      (t = d \<or> \<not> 2 ^ (t + 1) dvd (i + 1)) \<Longrightarrow> a ! i = psum x (i + 1 - 2 ^ t) (i + 1)"
    using inv unfolding up_inv_def by blast
  have IHd: "\<And>i. i < length x \<Longrightarrow> P dvd (i + 1) \<Longrightarrow> a ! i = psum x (i + 1 - P) (i + 1)"
    using IH[of _ d] by (simp add: P_def)
  have st: "\<And>i. i < length x \<Longrightarrow> fold (upsweep_thread d) [0..<length x] a ! i =
         (if Q dvd (i + 1) then a ! i + a ! (i - P) else a ! i)"
    using upsweep_step[of d a] q la by (simp add: P_def Q_def)
  have main: "fold (upsweep_thread d) [0..<length x] a ! i = psum x (i + 1 - 2 ^ t) (i + 1)"
    if i: "i < length x" and t: "t \<le> d + 1" "2 ^ t dvd (i + 1)"
      "t = d + 1 \<or> \<not> 2 ^ (t + 1) dvd (i + 1)" for i t
  proof (cases "t = d + 1")
    case True
    have Qi: "Q dvd (i + 1)" using t(2) True by (simp add: Q_def)
    then have Pi: "P dvd (i + 1)" using PQ(3) by (rule dvd_trans[rotated])
    have "Q \<le> i + 1" using Qi by (simp add: dvd_imp_le)
    then have ge: "P + P \<le> i + 1" using PQ by simp
    then have e1: "i - P + 1 = i + 1 - P" using PQ by linarith
    have "P dvd (i + 1 - P)" using Pi by (simp add: dvd_diff_nat)
    then have "a ! (i - P) = psum x (i - P + 1 - P) (i - P + 1)"
      using IHd[of "i - P"] i e1 by simp
    then have "a ! (i - P) = psum x (i + 1 - Q) (i + 1 - P)"
      using e1 PQ by simp
    moreover have "a ! i = psum x (i + 1 - P) (i + 1)" using IHd[OF i Pi] .
    ultimately have "a ! i + a ! (i - P) = psum x (i + 1 - Q) (i + 1)"
      using psum_split[of "i + 1 - Q" "i + 1 - P" "i + 1" x] ge PQ by (simp add: add.commute)
    then show ?thesis using st[OF i] Qi True by (simp add: Q_def)
  next
    case False
    with t have td: "t \<le> d" "\<not> 2 ^ (t + 1) dvd (i + 1)" by auto
    have "2 ^ (t + 1) dvd Q" unfolding Q_def using td(1) by (intro pow2_dvd_mono) simp
    then have "\<not> Q dvd (i + 1)" using td(2) dvd_trans by blast
    then have "fold (upsweep_thread d) [0..<length x] a ! i = a ! i"
      using st[OF i] by simp
    then show ?thesis using IH[OF i td(1) t(2)] td(2) by simp
  qed
  have len: "length (fold (upsweep_thread d) [0..<length x] a) = length x" by (simp add: la upsweep_thread_body)
  show ?thesis unfolding up_inv_def using len main by blast
qed

lemma upsweep_inv:
  "2 ^ L dvd length x \<Longrightarrow> d \<le> L \<Longrightarrow> up_inv x d (upsweep (length x) d x)"
proof (induction d)
  case 0
  then show ?case by (simp add: upsweep_def up_inv_0)
next
  case (Suc d)
  have "2 ^ (d + 1) dvd (2::nat) ^ L" using Suc.prems(2) by (intro pow2_dvd_mono) simp
  then have "2 ^ (d + 1) dvd length x" using Suc.prems(1) by (rule dvd_trans)
  then show ?case
    using up_inv_step[of x d "upsweep (length x) d x"] Suc by (simp add: upsweep_def)
qed

lemma block_start_le: "(i div B) * B \<le> (i::nat)"
  by simp

lemma block_end_gt: "0 < B \<Longrightarrow> (i::nat) < (i div B) * B + B"
  using dividend_less_div_times[of B i] by simp

lemma same_block: "(i div B) * B \<le> j \<Longrightarrow> j < (i div B) * B + B \<Longrightarrow> j div B = i div (B::nat)"
  by (rule div_nat_eqI) (simp_all add: mult.commute)

lemma block_end_le: "0 < B \<Longrightarrow> B dvd n \<Longrightarrow> i < n \<Longrightarrow> (i div B) * B + B \<le> (n::nat)"
  by (rule dvd_gap) (auto intro: le_less_trans[OF block_start_le])

lemma block_start_last: "0 < B \<Longrightarrow> B dvd (i + 1) \<Longrightarrow> (i div B) * B = i + 1 - (B::nat)"
proof -
  assume B: "0 < B" "B dvd (i + 1)"
  have "B dvd (i div B) * B" by simp
  then have "(i div B) * B + B \<le> i + 1"
    using B(2) by (rule dvd_gap) (simp add: le_imp_less_Suc)
  moreover have "i + 1 \<le> (i div B) * B + B" using block_end_gt[OF B(1), of i] by simp
  ultimately show ?thesis by simp
qed

lemma block_start_sub: "Q dvd B \<Longrightarrow> Q dvd (i + 1) \<Longrightarrow> (i div B) * B + Q \<le> i + (1::nat)"
  by (rule dvd_gap) (simp_all add: le_imp_less_Suc)

lemma odd_multiple: "0 < P \<Longrightarrow> P dvd (m::nat) \<Longrightarrow> \<not> (P + P) dvd m \<Longrightarrow> (P + P) dvd (m + P)"
proof -
  assume a: "0 < P" "P dvd m" "\<not> (P + P) dvd m"
  then obtain k where k: "m = P * k" by (auto elim: dvdE)
  with a(3) have "odd k" by (auto simp: mult_2[symmetric] elim!: evenE)
  then obtain j where "k = 2 * j + 1" by (auto elim: oddE)
  with k have "m + P = (P + P) * (j + 1)" by (simp add: algebra_simps)
  then show ?thesis by (metis dvd_triv_left)
qed

lemma down_inv_step:
  assumes inv: "down_inv x B (d + 1) a" and q: "2 ^ (d + 1) dvd B" and B: "0 < B" "B dvd length x"
  shows "down_inv x B d (fold (downsweep_thread d) [0..<length x] a)"
proof -
  define P :: nat where "P = 2 ^ d"
  define Q :: nat where "Q = 2 ^ (d + 1)"
  define a' where "a' = fold (downsweep_thread d) [0..<length x] a"
  have PQ: "0 < P" "Q = P + P" "P dvd Q" by (simp_all add: P_def Q_def)
  have QB: "Q dvd B" using q by (simp add: Q_def)
  have Qn: "Q dvd length x" using QB B(2) by (rule dvd_trans)
  have la: "length a = length x" using inv by (simp add: down_inv_def)
  have IH1: "\<And>i. i < length x \<Longrightarrow> Q dvd (i + 1) \<Longrightarrow> a ! i = psum x ((i div B) * B) (i + 1 - Q)"
    using inv unfolding down_inv_def Q_def by blast
  have IH2: "\<And>i t. i < length x \<Longrightarrow> t < d + 1 \<Longrightarrow> 2 ^ t dvd (i + 1) \<Longrightarrow>
      \<not> 2 ^ (t + 1) dvd (i + 1) \<Longrightarrow> a ! i = psum x (i + 1 - 2 ^ t) (i + 1)"
    using inv unfolding down_inv_def by blast
  have IH2d: "\<And>i. i < length x \<Longrightarrow> P dvd (i + 1) \<Longrightarrow> \<not> Q dvd (i + 1) \<Longrightarrow>
      a ! i = psum x (i + 1 - P) (i + 1)"
    using IH2[of _ d] by (simp add: P_def Q_def)
  have st: "\<And>i. i < length x \<Longrightarrow> a' ! i =
         (if Q dvd (i + 1) then a ! i + a ! (i - P)
          else if Q dvd (i + 1 + P) then a ! (i + P) else a ! i)"
    using downsweep_step[of d a] Qn la by (simp add: P_def Q_def a'_def)
  have part1: "a' ! i = psum x ((i div B) * B) (i + 1 - P)"
    if i: "i < length x" and Pi: "P dvd (i + 1)" for i
  proof (cases "Q dvd (i + 1)")
    case True
    have bs: "(i div B) * B + Q \<le> i + 1" using QB True by (rule block_start_sub)
    then have ge: "P + P \<le> i + 1" using PQ by simp
    then have e1: "i - P + 1 = i + 1 - P" using PQ by linarith
    have "P dvd (i + 1 - P)" using Pi by (simp add: dvd_diff_nat)
    moreover have "\<not> Q dvd (i + 1 - P)"
      using not_dvd_shift[of P Q "i + 1 - Q"] True PQ ge by (simp add: dvd_diff_nat)
    ultimately have "a ! (i - P) = psum x (i - P + 1 - P) (i - P + 1)"
      using IH2d[of "i - P"] i e1 by simp
    then have "a ! (i - P) = psum x (i + 1 - Q) (i + 1 - P)"
      using e1 PQ by simp
    moreover have "a ! i = psum x ((i div B) * B) (i + 1 - Q)" using IH1[OF i True] .
    ultimately have "a ! i + a ! (i - P) = psum x ((i div B) * B) (i + 1 - P)"
      using psum_split[of "(i div B) * B" "i + 1 - Q" "i + 1 - P" x] bs PQ by simp
    then show ?thesis using st[OF i] True by simp
  next
    case False
    have Qi: "Q dvd (i + 1 + P)" using odd_multiple[OF PQ(1) Pi] False PQ(2) by simp
    have "P \<le> i + 1" using Pi by (simp add: dvd_imp_le)
    then have "Q dvd (i + 1 - P)"
      using Qi PQ dvd_diff_nat[of Q "i + 1 + P" Q] by simp
    moreover have "Q dvd (i div B) * B + B" using QB by simp
    moreover have "i + 1 - P < (i div B) * B + B"
      using block_end_gt[OF B(1), of i] PQ(1) by linarith
    ultimately have "i + 1 - P + Q \<le> (i div B) * B + B" by (rule dvd_gap)
    then have lt: "i + P < (i div B) * B + B" using PQ \<open>P \<le> i + 1\<close> by linarith
    have "(i div B) * B \<le> i + P" using block_start_le[of i B] by linarith
    then have sb: "(i + P) div B = i div B" using lt by (rule same_block)
    have iP: "i + P < length x" using lt block_end_le[OF B i] by linarith
    have "a ! (i + P) = psum x (((i + P) div B) * B) (i + P + 1 - Q)"
      using IH1[OF iP] Qi by (simp add: add.commute add.left_commute)
    then have "a ! (i + P) = psum x ((i div B) * B) (i + 1 - P)"
      using sb PQ by simp
    then show ?thesis using st[OF i] False Qi by simp
  qed
  have part2: "a' ! i = psum x (i + 1 - 2 ^ t) (i + 1)"
    if i: "i < length x" and t: "t < d" "2 ^ t dvd (i + 1)" "\<not> 2 ^ (t + 1) dvd (i + 1)" for i t
  proof -
    have "2 ^ (t + 1) dvd P" unfolding P_def using t(1) by (intro pow2_dvd_mono) simp
    then have nP: "\<not> P dvd (i + 1)" using t(3) dvd_trans by blast
    then have "\<not> Q dvd (i + 1)" using PQ(3) dvd_trans by blast
    moreover have "\<not> Q dvd (i + 1 + P)"
    proof
      assume "Q dvd (i + 1 + P)"
      then have "P dvd (i + 1 + P)" using PQ(3) dvd_trans by blast
      then show False using nP by (metis dvd_add_left_iff dvd_refl)
    qed
    ultimately have "a' ! i = a ! i" using st[OF i] by simp
    then show ?thesis using IH2[OF i _ t(2,3)] t(1) by simp
  qed
  have len: "length a' = length x" by (simp add: a'_def la)
  show ?thesis unfolding down_inv_def a'_def[symmetric] P_def[symmetric]
    using len part1 part2 by blast
qed

lemma downsweep_inv:
  assumes B: "B = 2 ^ L" "B dvd length x" and start: "down_inv x B L a"
  shows "d \<le> L \<Longrightarrow> down_inv x B d
     (fold (\<lambda>d. fold (downsweep_thread d) [0..<length x]) (rev [d..<L]) a)"
proof (induction "L - d" arbitrary: d)
  case 0
  then show ?case using start by simp
next
  case (Suc k)
  then have d: "d < L" "k = L - (d + 1)" "d + 1 \<le> L" by simp_all
  have r: "rev [d..<L] = rev [d + 1..<L] @ [d]" using d(1) by (simp add: upt_conv_Cons)
  have "2 ^ (d + 1) dvd B" unfolding B(1) using d(3) by (rule pow2_dvd_mono)
  then show ?case
    unfolding r using down_inv_step[OF Suc.hyps(1)[OF d(2,3)]] B by simp
qed

subsection \<open>kernScanInclusive computes the prefix sums within each group\<close>

lemma ilog2ceil_pow2 [simp]: "ilog2ceil (2 ^ k) = k"
proof (induction k)
  case 0
  show ?case by (simp add: ilog2ceil.simps)
next
  case (Suc k)
  have "(2::nat) ^ Suc k = 2 ^ k + 2 ^ k" "0 < (2::nat) ^ k" by simp_all
  then have "\<not> (2::nat) ^ Suc k \<le> 1" by linarith
  moreover have "((2::nat) ^ Suc k + 1) div 2 = 2 ^ k" by simp
  ultimately show ?case using Suc by (subst ilog2ceil.simps) (simp only: if_False)
qed

lemma mod_last_iff: "0 < b \<Longrightarrow> (i mod b = b - Suc 0) = (b dvd Suc i)"
  by (auto simp: dvd_eq_mod_eq_0 mod_Suc)

lemma min_pow2: "min ((2::nat) ^ m) (2 ^ k) = 2 ^ min m k"
  by (simp add: min_def)

lemma is_last_thread_iff:
  assumes "n = 2 ^ m" "bdim = 2 ^ k" "i < n"
  shows "is_last_thread bdim n i \<longleftrightarrow> min n bdim dvd (i + 1)"
proof (cases "n < bdim")
  case True
  then have "i mod bdim = i" "i \<noteq> bdim - 1" "min n bdim = n" using assms(3) by simp_all
  moreover have "n dvd (i + 1) \<longleftrightarrow> i = n - 1"
    using assms(3) by (auto dest: dvd_imp_le)
  ultimately show ?thesis by (simp add: is_last_thread_def)
next
  case False
  then have "k \<le> m" using assms(1,2) by (simp add: not_less)
  then have "bdim dvd n" unfolding assms(1,2) by (rule pow2_dvd_mono)
  then have "i = n - 1 \<Longrightarrow> bdim dvd Suc i" using assms(3) by simp
  moreover have "min n bdim = bdim" "0 < bdim" using False assms(2) by simp_all
  ultimately show ?thesis by (auto simp: is_last_thread_def mod_last_iff)
qed

lemma kernScanInclusive_blocks:
  assumes n: "n = 2 ^ m" and bdim: "bdim = 2 ^ k" and lx: "length x = n"
  shows "kernScanInclusive bdim n x =
     (map (\<lambda>i. psum x ((i div bdim) * bdim) (i + 1)) [0..<n],
      map (\<lambda>i. psum x ((i div bdim) * bdim) i) [0..<n])"
proof -
  define L where "L = min m k"
  define B :: nat where "B = 2 ^ L"
  have minB: "min n bdim = B" by (simp add: n bdim min_pow2 B_def L_def)
  have log2n: "ilog2ceil (min n bdim) = L" by (simp add: minB B_def)
  have Bpos: "0 < B" by (simp add: B_def)
  have Bn: "B dvd length x" unfolding lx n B_def L_def by (rule pow2_dvd_mono) simp
  have Bb: "B dvd bdim" unfolding bdim B_def L_def by (rule pow2_dvd_mono) simp
  have last: "\<And>i. i < n \<Longrightarrow> is_last_thread bdim n i \<longleftrightarrow> B dvd (i + 1)"
    using is_last_thread_iff[OF n bdim] minB by simp
  have bstart: "(i div bdim) * bdim = (i div B) * B" if "i < n" for i
  proof (cases "n < bdim")
    case True
    then have "B = n" using minB by simp
    with True that show ?thesis by simp
  next
    case False
    then have "B = bdim" using minB by simp
    then show ?thesis by simp
  qed
  define up where "up = upsweep n L x"
  have up: "up_inv x L up"
    using upsweep_inv[of L x L] Bn by (simp add: up_def lx B_def)
  have lup: "length up = n" using up by (simp add: up_inv_def lx)
  have upB: "\<And>i. i < n \<Longrightarrow> B dvd (i + 1) \<Longrightarrow> up ! i = psum x (i + 1 - B) (i + 1)"
    using up unfolding up_inv_def B_def lx by blast
  have upt: "\<And>i t. i < n \<Longrightarrow> t < L \<Longrightarrow> 2 ^ t dvd (i + 1) \<Longrightarrow> \<not> 2 ^ (t + 1) dvd (i + 1)
       \<Longrightarrow> up ! i = psum x (i + 1 - 2 ^ t) (i + 1)"
    using up unfolding up_inv_def lx by (meson less_imp_le)
  define cleared where "cleared = fold (clear_thread bdim n) [0..<n] up"
  have cl: "\<And>i. i < n \<Longrightarrow> cleared ! i = (if B dvd (i + 1) then 0 else up ! i)"
    using clear_step[of _ up bdim n n] lup last by (simp add: cleared_def)
  have lcl: "length cleared = n" by (simp add: cleared_def lup)
  have c1: "cleared ! i = psum x ((i div B) * B) (i + 1 - 2 ^ L)"
    if "i < n" "2 ^ L dvd (i + 1)" for i
    using that cl[of i] block_start_last[OF Bpos, of i] by (simp add: B_def)
  have c2: "cleared ! i = psum x (i + 1 - 2 ^ t) (i + 1)"
    if i: "i < n" and t: "t < L" "2 ^ t dvd (i + 1)" "\<not> 2 ^ (t + 1) dvd (i + 1)" for i t
  proof -
    have "2 ^ (t + 1) dvd B" unfolding B_def using t(1) by (intro pow2_dvd_mono) simp
    then have "\<not> B dvd (i + 1)" using t(3) dvd_trans by blast
    then show ?thesis using cl[OF i] upt[OF i t] by simp
  qed
  have dinv0: "down_inv x B L cleared"
    unfolding down_inv_def lx using lcl c1 c2 by blast
  define down where "down = downsweep n L cleared"
  have "down_inv x B 0 down"
    using downsweep_inv[OF B_def Bn dinv0, of 0] by (simp add: down_def downsweep_def lx)
  then have dn: "\<And>i. i < n \<Longrightarrow> down ! i = psum x ((i div B) * B) i" and ldn: "length down = n"
    by (simp_all add: down_inv_def lx)
  have od: "(if is_last_thread bdim n i
             then map (\<lambda>gid. if is_last_thread bdim n gid then up ! gid else 0) [0..<n] ! i
             else down ! (i + 1)) = psum x ((i div bdim) * bdim) (i + 1)"
    if i: "i < n" for i
  proof (cases "B dvd (i + 1)")
    case True
    then show ?thesis
      using i last[OF i] upB[OF i True] block_start_last[OF Bpos True] bstart[OF i] by simp
  next
    case False
    have "i + 1 \<le> (i div B) * B + B" using block_end_gt[OF Bpos, of i] by simp
    moreover have "B dvd (i div B) * B + B" by simp
    ultimately have lt: "i + 1 < (i div B) * B + B" using False by (metis le_neq_implies_less)
    have "(i div B) * B \<le> i + 1" using block_start_le[of i B] by linarith
    then have sb: "(i + 1) div B = i div B" using lt by (rule same_block)
    have "i + 1 < n" using lt block_end_le[OF Bpos Bn, of i] i lx by simp
    then have "down ! (i + 1) = psum x ((i div B) * B) (i + 1)" using dn[of "i + 1"] sb by simp
    then show ?thesis using False last[OF i] bstart[OF i] by simp
  qed
  have "kernScanInclusive bdim n x =
     (map (\<lambda>gid. if is_last_thread bdim n gid
             then map (\<lambda>gid. if is_last_thread bdim n gid then up ! gid else 0) [0..<n] ! gid
             else down ! (gid + 1)) [0..<n], down)"
    by (simp add: kernScanInclusive_def Let_def log2n up_def cleared_def down_def)
  moreover have "down = map (\<lambda>i. psum x ((i div bdim) * bdim) i) [0..<n]"
    by (rule nth_equalityI) (simp_all add: ldn dn bstart)
  ultimately show ?thesis using od by (simp cong: map_cong)
qed

subsection \<open>The level-counting loop returns, and the sizes of the levels\<close>

lemma ceil_div_pow2_big:
  assumes "k < e"
  shows "ceil_div (2 ^ k) (2 ^ e) = 2 ^ (e - k)" and "1 < ceil_div (2 ^ k) (2 ^ e)"
proof -
  have e: "(2::nat) ^ e = 2 ^ k * 2 ^ (e - k)" using assms by (simp flip: power_add)
  define a :: nat where "a = 2 ^ k"
  define b :: nat where "b = 2 ^ (e - k)"
  have ab: "0 < a" "(2::nat) ^ e = a * b" using e by (simp_all add: a_def b_def)
  have "a * Suc b = a * b + a" by simp
  then have "a * b \<le> a * b + a - 1" "a * b + a - 1 < a * Suc b"
    using ab(1) by linarith+
  then have "(a * b + a - 1) div a = b" by (rule div_nat_eqI)
  then show c: "ceil_div (2 ^ k) (2 ^ e) = 2 ^ (e - k)"
    unfolding ceil_div_def ab(2) unfolding a_def b_def .
  have "(2::nat) ^ 1 \<le> 2 ^ (e - k)" using assms by (intro power_increasing) simp_all
  then show "1 < ceil_div (2 ^ k) (2 ^ e)" unfolding c by simp
qed

lemma ceil_div_pow2_small:
  assumes "e \<le> k"
  shows "ceil_div (2 ^ k) (2 ^ e) = 1"
proof -
  have "(2::nat) ^ e \<le> 2 ^ k" using assms by (intro power_increasing) simp_all
  moreover have "0 < (2::nat) ^ e" by simp
  ultimately have "2 ^ k \<le> (2::nat) ^ e + 2 ^ k - 1" "(2::nat) ^ e + 2 ^ k - 1 < 2 ^ k * 2"
    by linarith+
  then show ?thesis unfolding ceil_div_def
    by (intro div_nat_eqI) simp_all
qed

lemma count_scans_total:
  assumes "0 < k"
  shows "\<exists>M. count_scans (2 ^ k) ns (2 ^ e) = Some (ns + M) \<and> (M = 0 \<or> M * k < e) \<and> e \<le> (M + 1) * k"
proof (induction e arbitrary: ns rule: less_induct)
  case (less e)
  show ?case
  proof (cases "k < e")
    case True
    then have "e - k < e" using assms by simp
    from less[OF this, of "ns + 1"] obtain M where
      M: "count_scans (2 ^ k) (ns + 1) (2 ^ (e - k)) = Some (ns + 1 + M)"
         "M = 0 \<or> M * k < e - k" "e - k \<le> (M + 1) * k" by blast
    have "count_scans (2 ^ k) ns (2 ^ e) = Some (ns + Suc M)"
      using ceil_div_pow2_big[OF True] M(1)
      by (subst count_scans.simps) (simp add: ceil_div_def)
    moreover have "Suc M * k < e" "e \<le> (Suc M + 1) * k" using M(2,3) True by auto
    ultimately show ?thesis by blast
  next
    case False
    then have "count_scans (2 ^ k) ns (2 ^ e) = Some (ns + 0)"
      using ceil_div_pow2_small[of e k]
      by (subst count_scans.simps) (simp add: ceil_div_def)
    moreover have "e \<le> (0 + 1) * k" using False by simp
    ultimately show ?thesis by blast
  qed
qed

lemma level_sizes_length [simp]: "length (level_sizes bs N len) = N"
  by (induction N arbitrary: len) simp_all

lemma level_sizes_pow2:
  "j < N \<Longrightarrow> (N - 1) * k < e + k \<Longrightarrow> level_sizes (2 ^ k) N (2 ^ e) ! j = 2 ^ (e - j * k)"
proof (induction N arbitrary: e j)
  case 0
  then show ?case by simp
next
  case (Suc N)
  show ?case
  proof (cases j)
    case 0
    then show ?thesis by simp
  next
    case (Suc j')
    then have N: "j' < N" "0 < N" using Suc.prems by simp_all
    define t where "t = (N - 1) * k"
    have "N * k = t + k" using N(2) by (cases N) (simp_all add: t_def)
    then have "t + k < e + k" using Suc.prems(2) by simp
    then have "t < e - k + k" by arith
    then have ke: "(N - 1) * k < e - k + k" by (simp add: t_def)
    have cd: "(2 ^ e + 2 ^ k - 1) div 2 ^ k = (2::nat) ^ (e - k)"
    proof (cases "k < e")
      case True
      then show ?thesis using ceil_div_pow2_big(1)[of k e] by (simp add: ceil_div_def)
    next
      case False
      then show ?thesis using ceil_div_pow2_small[of e k] by (simp add: ceil_div_def)
    qed
    have "level_sizes (2 ^ k) N (2 ^ (e - k)) ! j' = 2 ^ (e - k - j' * k)"
      using Suc.IH[OF N(1) ke] .
    then show ?thesis using Suc cd by (simp add: add.commute)
  qed
qed

subsection \<open>The kernels of one level on prefix sums\<close>

lemma length_scans [simp]:
  "length (incl_blocks bs x) = length x" "length (excl_blocks bs x) = length x"
  "length (incl_scan x) = length x" "length (excl_scan x) = length x"
  "length (block_totals bs x) = length x div bs"
  by (simp_all add: incl_blocks_def excl_blocks_def incl_scan_def excl_scan_def block_totals_def)

lemma kernScanInclusive_scans:
  "length y = 2 ^ a \<Longrightarrow> kernScanInclusive (2 ^ k) (2 ^ a) y = (incl_blocks (2 ^ k) y, excl_blocks (2 ^ k) y)"
  using kernScanInclusive_blocks[of "2 ^ a" a "2 ^ k" k y]
  by (simp add: incl_blocks_def excl_blocks_def)

lemma extract_block_totals:
  assumes "0 < bs" "bs dvd length y"
  shows "kernExtractLastElementPerBlock bs (length y) (incl_blocks bs y) = block_totals bs y"
proof -
  obtain q where q: "length y = bs * q" using assms(2) by (auto elim: dvdE)
  have g: "(length y + bs - 1) div bs = length y div bs"
  proof -
    have "bs * q \<le> bs * q + bs - 1" "bs * q + bs - 1 < bs * Suc q" using assms(1) by simp_all
    then have "(bs * q + bs - 1) div bs = q" by (rule div_nat_eqI)
    then show ?thesis using assms(1) by (simp add: q)
  qed
  have el: "incl_blocks bs y ! (min ((b + 1) * bs) (length y) - 1) = psum y (b * bs) (b * bs + bs)"
    if b: "b < length y div bs" for b
  proof -
    have "b + 1 \<le> q" using b assms(1) by (simp add: q)
    then have "(b + 1) * bs \<le> q * bs" by (rule mult_le_mono1)
    then have le: "(b + 1) * bs \<le> length y" by (simp add: q mult.commute)
    define i where "i = (b + 1) * bs - 1"
    have i: "i < length y" "i + 1 = b * bs + bs" "b * bs \<le> i" "i < b * bs + bs"
      using le assms(1) by (simp_all add: i_def)
    have "i div bs = b" using i(3,4) by (intro div_nat_eqI) (simp_all add: mult.commute)
    then have "incl_blocks bs y ! i = psum y (b * bs) (b * bs + bs)"
      using i(1,2) by (simp add: incl_blocks_def)
    moreover have "min ((b + 1) * bs) (length y) - 1 = i" using le by (simp add: i_def)
    ultimately show ?thesis by simp
  qed
  show ?thesis
    unfolding kernExtractLastElementPerBlock_def g block_totals_def
  proof (rule map_cong[OF refl])
    fix b assume "b \<in> set [0..<length y div bs]"
    then have "b < length y div bs" by simp
    then show "incl_blocks bs y ! (min ((b + 1) * bs) (length y) - 1) = psum y (b * bs) (b * bs + bs)"
      by (rule el)
  qed
qed

lemma shift_incl_scan: "kernShiftToExclusive (length y) (incl_scan y) = excl_scan y"
  unfolding kernShiftToExclusive_def excl_scan_def
  by (rule map_cong[OF refl]) (auto simp: incl_scan_def)

lemma single_block_scan: "length y \<le> bs \<Longrightarrow> incl_blocks bs y = incl_scan y"
  unfolding incl_blocks_def incl_scan_def
  by (rule map_cong[OF refl]) simp

lemma block_totals_sum:
  "b \<le> length y div bs \<Longrightarrow> psum (block_totals bs y) 0 b = psum y 0 (b * bs)"
proof (induction b)
  case 0
  show ?case by simp
next
  case (Suc b)
  then have "block_totals bs y ! b = psum y (b * bs) (b * bs + bs)"
    by (simp add: block_totals_def)
  then have "psum (block_totals bs y) 0 (Suc b) = psum y 0 (b * bs) + psum y (b * bs) (b * bs + bs)"
    using Suc by (simp add: psum_Suc)
  also have "\<dots> = psum y 0 (b * bs + bs)" by (rule psum_split) simp_all
  finally show ?case by (simp add: add.commute)
qed

lemma add_offset_incl_scan:
  assumes "0 < bs" "bs dvd length y"
  shows "kernAddOffsetPerBlock bs (length y) (excl_scan (block_totals bs y)) (incl_blocks bs y)
         = incl_scan y"
  unfolding kernAddOffsetPerBlock_def incl_scan_def
proof (rule map_cong[OF refl])
  fix i assume "i \<in> set [0..<length y]"
  then have i: "i < length y" by simp
  have lt: "i div bs < length y div bs"
    using i assms by (simp add: div_less_iff_less_mult dvd_div_mult_self)
  have "incl_blocks bs y ! i + excl_scan (block_totals bs y) ! (i div bs)
        = psum y ((i div bs) * bs) (i + 1) + psum y 0 ((i div bs) * bs)"
    using i lt block_totals_sum[of "i div bs" y bs]
    by (simp add: incl_blocks_def excl_scan_def)
  also have "\<dots> = psum y 0 (i + 1)"
    using psum_split[of 0 "(i div bs) * bs" "i + 1" y] block_start_le[of i bs]
    by (simp add: add.commute)
  finally show "incl_blocks bs y ! i + excl_scan (block_totals bs y) ! (i div bs) = psum y 0 (i + 1)" .
qed

subsection \<open>The upward and the downward pass\<close>

lemma hier_below: "hier k e M \<Longrightarrow> j < M \<Longrightarrow> k + j * k < e"
proof -
  assume h: "hier k e M" and j: "j < M"
  then have "(j + 1) * k \<le> M * k" by (intro mult_le_mono1) simp
  moreover have "M * k < e" using h j by (auto simp: hier_def)
  ultimately show ?thesis by simp
qed

lemma hier_top: "hier k e M \<Longrightarrow> e - M * k \<le> k"
  by (auto simp: hier_def)

lemma hier_sizes:
  assumes "hier k e M" "j \<le> M"
  shows "level_sizes (2 ^ k) (M + 1) (2 ^ e) ! j = 2 ^ (e - j * k)"
proof -
  have "(M + 1 - 1) * k < e + k" using assms(1) by (auto simp: hier_def)
  then show ?thesis using assms(2) by (intro level_sizes_pow2) simp_all
qed

lemma hier_length_lvl:
  assumes "hier k e M" "length x = 2 ^ e"
  shows "j \<le> M \<Longrightarrow> length (lvl (2 ^ k) x j) = 2 ^ (e - j * k)"
proof (induction j)
  case 0
  then show ?case by (simp add: assms(2))
next
  case (Suc j)
  then have j: "j < M" by simp
  have lt: "k + j * k < e" using hier_below[OF assms(1) j] .
  then have "(2::nat) ^ (e - j * k) = 2 ^ k * 2 ^ (e - j * k - k)"
    by (simp flip: power_add)
  then have "(2::nat) ^ (e - j * k) div 2 ^ k = 2 ^ (e - j * k - k)" by simp
  then show ?case using Suc j by (simp add: add.commute)
qed

lemma hier_dvd:
  assumes "hier k e M" "j < M"
  shows "(2::nat) ^ k dvd 2 ^ (e - j * k)"
  using hier_below[OF assms] by (intro pow2_dvd_mono) simp

lemma cudaMemcpy_all: "length src = n \<Longrightarrow> length dst = n \<Longrightarrow> cudaMemcpy dst src n = src"
  by (simp add: cudaMemcpy_def)

lemma upward_step_result:
  assumes h: "hier k e M" and lx: "length x = 2 ^ e" and i: "i \<le> M"
    and s: "dev_lengths (M + 1) s" "dev_idata s ! i = lvl (2 ^ k) x i"
  shows "upward_step (2 ^ k) (level_sizes (2 ^ k) (M + 1) (2 ^ e)) (M + 1) i s =
     s\<lparr>dev_buffer := (dev_buffer s)[i := incl_blocks (2 ^ k) (lvl (2 ^ k) x i)],
       dev_idata := (if i < M
          then (dev_idata s)[i := incl_blocks (2 ^ k) (lvl (2 ^ k) x i), i + 1 := lvl (2 ^ k) x (i + 1)]
          else (dev_idata s)[i := incl_blocks (2 ^ k) (lvl (2 ^ k) x i)])\<rparr>"
proof -
  define y where "y = lvl (2 ^ k) x i"
  define n :: nat where "n = 2 ^ (e - i * k)"
  define sizes where "sizes = level_sizes (2 ^ k) (M + 1) (2 ^ e)"
  have sz: "sizes ! i = n" unfolding sizes_def n_def using hier_sizes[OF h i] .
  have ly: "length y = n" using hier_length_lvl[OF h lx i] by (simp add: y_def n_def)
  have kern: "kernScanInclusive (2 ^ k) n y = (incl_blocks (2 ^ k) y, excl_blocks (2 ^ k) y)"
    unfolding n_def using ly by (intro kernScanInclusive_scans) (simp add: n_def)
  have li: "i < length (dev_idata s)" "i < length (dev_buffer s)"
    using s(1) i by (simp_all add: dev_lengths_def)
  have cp: "cudaMemcpy (excl_blocks (2 ^ k) y) (incl_blocks (2 ^ k) y) n = incl_blocks (2 ^ k) y"
    by (rule cudaMemcpy_all) (simp_all add: ly)
  have ex: "kernExtractLastElementPerBlock (2 ^ k) n (incl_blocks (2 ^ k) y) = lvl (2 ^ k) x (i + 1)"
    if "i < M"
  proof -
    have "(2::nat) ^ k dvd length y" unfolding ly n_def using hier_dvd[OF h that] .
    then have "kernExtractLastElementPerBlock (2 ^ k) (length y) (incl_blocks (2 ^ k) y)
        = block_totals (2 ^ k) y"
      by (intro extract_block_totals) simp_all
    then show ?thesis unfolding ly by (simp add: y_def)
  qed
  have "upward_step (2 ^ k) sizes (M + 1) i s =
     s\<lparr>dev_buffer := (dev_buffer s)[i := incl_blocks (2 ^ k) y],
       dev_idata := (if i < M
          then (dev_idata s)[i := incl_blocks (2 ^ k) y, i + 1 := lvl (2 ^ k) x (i + 1)]
          else (dev_idata s)[i := incl_blocks (2 ^ k) y])\<rparr>"
    using li ex by (simp add: upward_step_def sz s(2) y_def[symmetric] kern cp Let_def del: lvl.simps)
  then show ?thesis unfolding sizes_def y_def .
qed

lemma upward_step_ok:
  assumes h: "hier k e M" and lx: "length x = 2 ^ e" and i: "i \<le> M"
    and ok: "up_ok (2 ^ k) x (M + 1) i s"
  shows "up_ok (2 ^ k) x (M + 1) (i + 1)
           (upward_step (2 ^ k) (level_sizes (2 ^ k) (M + 1) (2 ^ e)) (M + 1) i s)"
proof -
  have s: "dev_lengths (M + 1) s" "dev_idata s ! i = lvl (2 ^ k) x i"
    and prev: "\<And>j. j < i \<Longrightarrow> dev_buffer s ! j = incl_blocks (2 ^ k) (lvl (2 ^ k) x j) \<and>
         dev_idata s ! j = incl_blocks (2 ^ k) (lvl (2 ^ k) x j)"
    using ok i by (simp_all add: up_ok_def)
  have li: "i < length (dev_idata s)" "i < length (dev_buffer s)" "length (dev_idata s) = M + 1"
    using s(1) i by (simp_all add: dev_lengths_def)
  show ?thesis
    unfolding upward_step_result[OF h lx i s] up_ok_def
    using s(1) li prev by (auto simp: dev_lengths_def nth_list_update less_Suc_eq)
qed

lemma upward_pass_ok:
  assumes h: "hier k e M" and lx: "length x = 2 ^ e"
    and s: "dev_lengths (M + 1) s" "dev_idata s ! 0 = x"
  shows "i \<le> M + 1 \<Longrightarrow> up_ok (2 ^ k) x (M + 1) i
     (fold (upward_step (2 ^ k) (level_sizes (2 ^ k) (M + 1) (2 ^ e)) (M + 1)) [0..<i] s)"
proof (induction i)
  case 0
  then show ?case using s by (simp add: up_ok_def)
next
  case (Suc i)
  then show ?case using upward_step_ok[OF h lx, of i] by simp
qed

lemma down_ok_start:
  assumes h: "hier k e M" and lx: "length x = 2 ^ e" and ok: "up_ok (2 ^ k) x (M + 1) (M + 1) s"
  shows "down_ok (2 ^ k) x (M + 1) (M + 1) s"
proof -
  have "length (lvl (2 ^ k) x M) = 2 ^ (e - M * k)" using hier_length_lvl[OF h lx, of M] by simp
  also have "\<dots> \<le> 2 ^ k" using hier_top[OF h] by (intro power_increasing) simp_all
  finally have "incl_blocks (2 ^ k) (lvl (2 ^ k) x M) = incl_scan (lvl (2 ^ k) x M)"
    by (rule single_block_scan)
  then show ?thesis using ok by (auto simp: up_ok_def down_ok_def)
qed

lemma downward_step_ok:
  assumes h: "hier k e M" and lx: "length x = 2 ^ e" and i: "i \<le> M"
    and ok: "down_ok (2 ^ k) x (M + 1) (i + 1) s"
  shows "down_ok (2 ^ k) x (M + 1) i
           (downward_step (2 ^ k) (level_sizes (2 ^ k) (M + 1) (2 ^ e)) i s)"
proof -
  define sizes where "sizes = level_sizes (2 ^ k) (M + 1) (2 ^ e)"
  define y where "y = lvl (2 ^ k) x i"
  have len: "dev_lengths (M + 1) s"
    and idt: "\<And>j. j < M + 1 \<Longrightarrow> dev_idata s ! j = incl_blocks (2 ^ k) (lvl (2 ^ k) x j)"
    and buf: "\<And>j. j < i \<Longrightarrow> dev_buffer s ! j = incl_blocks (2 ^ k) (lvl (2 ^ k) x j)"
    and cur: "dev_buffer s ! i = incl_scan y"
    and odt: "\<And>j. i < j \<Longrightarrow> j < M + 1 \<Longrightarrow> dev_odata s ! j = excl_scan (lvl (2 ^ k) x j)"
    using ok by (simp_all add: down_ok_def y_def)
  have ls: "length (dev_idata s) = M + 1" "length (dev_odata s) = M + 1" "length (dev_buffer s) = M + 1"
    using len by (simp_all add: dev_lengths_def)
  have sz: "sizes ! i = length y"
    unfolding sizes_def y_def using hier_sizes[OF h i] hier_length_lvl[OF h lx i] by simp
  have sh: "kernShiftToExclusive (sizes ! i) (incl_scan y) = excl_scan y"
    unfolding sz by (rule shift_incl_scan)
  show ?thesis
  proof (cases i)
    case 0
    have ni: "\<not> Suc 0 \<le> i" using 0 by simp
    have "downward_step (2 ^ k) sizes i s = s\<lparr>dev_odata := (dev_odata s)[i := excl_scan y]\<rparr>"
      by (simp add: downward_step_def cur sh Let_def ni)
    then show ?thesis
      unfolding sizes_def[symmetric] down_ok_def
      using 0 len idt odt ls by (auto simp: dev_lengths_def nth_list_update y_def)
  next
    case (Suc i')
    define z where "z = lvl (2 ^ k) x i'"
    have i': "i' < M" "i' \<le> M" using Suc i by simp_all
    have i1: "Suc 0 \<le> i" "i - Suc 0 = i'" "i \<le> M" using Suc i by simp_all
    have yz: "y = block_totals (2 ^ k) z" by (simp add: y_def z_def Suc)
    have sz': "sizes ! i' = length z"
      unfolding sizes_def z_def using hier_sizes[OF h i'(2)] hier_length_lvl[OF h lx i'(2)] by simp
    have "(2::nat) ^ k dvd length z"
      unfolding z_def hier_length_lvl[OF h lx i'(2)] using hier_dvd[OF h i'(1)] .
    then have ao: "kernAddOffsetPerBlock (2 ^ k) (sizes ! i') (excl_scan y) (incl_blocks (2 ^ k) z)
        = incl_scan z"
      unfolding sz' yz by (intro add_offset_incl_scan) simp_all
    have "downward_step (2 ^ k) sizes i s =
        s\<lparr>dev_odata := (dev_odata s)[i := excl_scan y],
          dev_buffer := (dev_buffer s)[i' := incl_scan z]\<rparr>"
      using ls idt[of i'] ao i1 i'
      by (simp add: downward_step_def cur sh Let_def z_def[symmetric])
    then show ?thesis
      unfolding sizes_def[symmetric] down_ok_def
      using Suc len idt odt buf ls i
      by (auto simp: dev_lengths_def nth_list_update y_def z_def)
  qed
qed

lemma downward_pass_ok:
  assumes h: "hier k e M" and lx: "length x = 2 ^ e"
    and ok: "down_ok (2 ^ k) x (M + 1) (M + 1) s"
  shows "i \<le> M + 1 \<Longrightarrow> down_ok (2 ^ k) x (M + 1) i
     (fold (downward_step (2 ^ k) (level_sizes (2 ^ k) (M + 1) (2 ^ e))) (rev [i..<M + 1]) s)"
proof (induction "M + 1 - i" arbitrary: i)
  case 0
  then show ?case using ok by simp
next
  case (Suc d)
  then have i: "i \<le> M" "d = M + 1 - (i + 1)" "i + 1 \<le> M + 1" by simp_all
  have r: "rev [i..<M + 1] = rev [i + 1..<M + 1] @ [i]" using i(1) by (simp add: upt_conv_Cons)
  show ?case
    unfolding r using downward_step_ok[OF h lx i(1) Suc.hyps(1)[OF i(2,3)]] by simp
qed

lemma run_levels_ok:
  assumes h: "hier k e M" and lx: "length x = 2 ^ e"
    and s: "dev_lengths (M + 1) s" "dev_idata s ! 0 = x"
  shows "down_ok (2 ^ k) x (M + 1) 0
     (run_levels (2 ^ k) (level_sizes (2 ^ k) (M + 1) (2 ^ e)) (M + 1) s)"
  unfolding run_levels_def upward_pass_def
  using downward_pass_ok[OF h lx down_ok_start[OF h lx upward_pass_ok[OF h lx s le_refl]], of 0]
  by simp

lemma run_levels_odata:
  assumes h: "hier k e M" and lx: "length x = 2 ^ e"
    and s: "dev_lengths (M + 1) s" "dev_idata s ! 0 = x"
  shows "dev_odata (run_levels (2 ^ k) (level_sizes (2 ^ k) (M + 1) (2 ^ e)) (M + 1) s) ! 0 = excl_scan x"
  using run_levels_ok[OF assms] by (simp add: down_ok_def)

subsection \<open>The padded length, and the result of scan\<close>

lemma ilog2ceil_ge: "x \<le> 2 ^ ilog2ceil x"
proof (induction x rule: ilog2ceil.induct)
  case (1 x)
  show ?case
  proof (cases "x \<le> 1")
    case True
    then show ?thesis by (subst ilog2ceil.simps) simp
  next
    case False
    then have "(x + 1) div 2 \<le> 2 ^ ilog2ceil ((x + 1) div 2)" using 1 by simp
    then have "x \<le> 2 * 2 ^ ilog2ceil ((x + 1) div 2)" by linarith
    then show ?thesis using False by (subst ilog2ceil.simps) simp
  qed
qed

lemma ilog2ceil_le: "x \<le> 2 ^ m \<Longrightarrow> ilog2ceil x \<le> m"
proof (induction x arbitrary: m rule: ilog2ceil.induct)
  case (1 x)
  show ?case
  proof (cases "x \<le> 1")
    case True
    then show ?thesis by (subst ilog2ceil.simps) simp
  next
    case False
    then have "m \<noteq> 0" using "1.prems" by (cases m) auto
    then obtain m' where m: "m = Suc m'" by (cases m) auto
    then have "(x + 1) div 2 \<le> 2 ^ m'" using "1.prems" by simp
    then have "ilog2ceil ((x + 1) div 2) \<le> m'" using 1 False by simp
    then show ?thesis using False m by (subst ilog2ceil.simps) simp
  qed
qed

lemma sint_of_nat_small: "m < 2 ^ 31 \<Longrightarrow> sint (of_nat m :: int32) = int m"
  by (simp add: signed_of_nat signed_take_bit_int_eq_self)

lemma unat_of_nat_small: "m < 2 ^ 32 \<Longrightarrow> unat (of_nat m :: int32) = m"
  by (simp add: unat_of_nat)

lemma n_pad_of_eq: "n_pad_of n = of_nat (2 ^ ilog2ceil (nat (sint n)))"
  by (simp add: n_pad_of_def push_bit_eq_mult)

lemma n_pad_small:
  assumes "0 < sint n" "sint n \<le> 2 ^ 30"
  shows "unat (n_pad_of n) = 2 ^ ilog2ceil (nat (sint n))" "\<not> sint (n_pad_of n) < 0"
    "nat (sint n) \<le> 2 ^ ilog2ceil (nat (sint n))" "ilog2ceil (nat (sint n)) \<le> 30"
proof -
  define e where "e = ilog2ceil (nat (sint n))"
  have "nat (sint n) \<le> 2 ^ 30" using assms by (simp add: nat_le_iff)
  then show e: "ilog2ceil (nat (sint n)) \<le> 30" by (rule ilog2ceil_le)
  then have "(2::nat) ^ e \<le> 2 ^ 30" unfolding e_def by (intro power_increasing) simp_all
  then have lt: "(2::nat) ^ e < 2 ^ 31" "(2::nat) ^ e < 2 ^ 32" by simp_all
  show "unat (n_pad_of n) = 2 ^ ilog2ceil (nat (sint n))"
    unfolding n_pad_of_eq e_def[symmetric] using lt(2) by (rule unat_of_nat_small)
  have "sint (n_pad_of n) = int (2 ^ e)"
    unfolding n_pad_of_eq e_def[symmetric] using lt(1) by (rule sint_of_nat_small)
  then show "\<not> sint (n_pad_of n) < 0" by simp
  show "nat (sint n) \<le> 2 ^ ilog2ceil (nat (sint n))" by (rule ilog2ceil_ge)
qed

lemma n_pad_overflow:
  assumes "2 ^ 30 < sint n"
  shows "unat (n_pad_of n) = 2 ^ 31" "sint (n_pad_of n) < 0"
proof -
  have "sint n < 2 ^ 31" using sint_lt[of n] by simp
  then have "nat (sint n) \<le> 2 ^ 31" by (simp add: nat_le_iff)
  then have le: "ilog2ceil (nat (sint n)) \<le> 31" by (rule ilog2ceil_le)
  have "2 ^ 30 < nat (sint n)" using assms by (simp add: zless_nat_eq_int_zless)
  then have "(2::nat) ^ 30 < 2 ^ ilog2ceil (nat (sint n))"
    using ilog2ceil_ge[of "nat (sint n)"] by linarith
  then have "30 < ilog2ceil (nat (sint n))" by (simp only: power_strict_increasing_iff one_less_numeral_iff semiring_norm)
  with le have e: "ilog2ceil (nat (sint n)) = 31" by simp
  show "unat (n_pad_of n) = 2 ^ 31" "sint (n_pad_of n) < 0"
    by (simp_all add: n_pad_of_def e)
qed

lemma psum_cong: "(\<And>j. l \<le> j \<Longrightarrow> j < r \<Longrightarrow> x ! j = y ! j) \<Longrightarrow> psum x l r = psum y l r"
  unfolding psum_def by (rule sum.cong) simp_all

lemma take_excl_scan_prefix:
  assumes "length x = n"
  shows "take n (excl_scan (x @ pad)) = excl_scan x"
proof (rule nth_equalityI)
  show "length (take n (excl_scan (x @ pad))) = length (excl_scan x)" using assms by simp
next
  fix i assume "i < length (take n (excl_scan (x @ pad)))"
  then have i: "i < n" by simp
  have "psum (x @ pad) 0 i = psum x 0 i"
    using i assms by (intro psum_cong) (simp add: nth_append)
  then show "take n (excl_scan (x @ pad)) ! i = excl_scan x ! i"
    using i assms by (simp add: excl_scan_def)
qed

lemma dev_lengths_alloc [simp]: "dev_lengths (length sizes) (alloc_levels garbage a0 sizes)"
  by (simp add: dev_lengths_def alloc_levels_def)

lemma alloc_levels_idata0:
  "0 < length sizes \<Longrightarrow> length (dev_idata (alloc_levels garbage a0 sizes) ! 0) = sizes ! 0"
  by (simp add: alloc_levels_def cudaMalloc_def)

lemma dev_lengths_update_idata [simp]:
  "dev_lengths N (s\<lparr>dev_idata := (dev_idata s)[i := v]\<rparr>) = dev_lengths N s"
  by (simp add: dev_lengths_def)

lemma scan_levels_padded:
  assumes h: "hier k e M" and lx: "length x = n" "n \<le> 2 ^ e"
  shows "take n (dev_odata (run_levels (2 ^ k) (level_sizes (2 ^ k) (M + 1) (2 ^ e)) (M + 1)
            ((alloc_levels garbage a0 (level_sizes (2 ^ k) (M + 1) (2 ^ e)))
              \<lparr>dev_idata := (dev_idata (alloc_levels garbage a0 (level_sizes (2 ^ k) (M + 1) (2 ^ e))))
                 [0 := cudaMemcpy (dev_idata (alloc_levels garbage a0 (level_sizes (2 ^ k) (M + 1) (2 ^ e))) ! 0) x n]\<rparr>)) ! 0)
         = excl_scan x"
proof -
  define sizes where "sizes = level_sizes (2 ^ k) (M + 1) (2 ^ e)"
  define s0 where "s0 = alloc_levels garbage a0 sizes"
  define X where "X = cudaMemcpy (dev_idata s0 ! 0) x n"
  have ls: "length sizes = M + 1" by (simp add: sizes_def)
  have "sizes ! 0 = 2 ^ e" by (simp add: sizes_def)
  then have "length (dev_idata s0 ! 0) = 2 ^ e"
    using ls alloc_levels_idata0[of sizes garbage a0] by (simp add: s0_def)
  then have X: "length X = 2 ^ e" "X = x @ drop n (dev_idata s0 ! 0)"
    using lx by (simp_all add: X_def cudaMemcpy_def)
  have dl: "dev_lengths (M + 1) (s0\<lparr>dev_idata := (dev_idata s0)[0 := X]\<rparr>)"
    using dev_lengths_alloc[of sizes garbage a0] by (simp add: s0_def ls)
  have "length (dev_idata s0) = M + 1" using ls by (simp add: s0_def alloc_levels_def)
  then have d0: "dev_idata (s0\<lparr>dev_idata := (dev_idata s0)[0 := X]\<rparr>) ! 0 = X" by simp
  have "dev_odata (run_levels (2 ^ k) sizes (M + 1) (s0\<lparr>dev_idata := (dev_idata s0)[0 := X]\<rparr>)) ! 0
      = excl_scan X"
    unfolding sizes_def by (rule run_levels_odata[OF h X(1) dl[unfolded sizes_def] d0])
  then show ?thesis
    unfolding sizes_def[symmetric] s0_def[symmetric] X_def[symmetric]
    using take_excl_scan_prefix[OF lx(1)] X(2) by simp
qed

lemma scan_result:
  assumes n: "0 < sint n" "sint n \<le> 2 ^ 30" and k: "0 < k" and lx: "length x = nat (sint n)"
  shows "scan (2 ^ k) garbage n x = Some (Inr (excl_scan x))"
proof -
  define e where "e = ilog2ceil (nat (sint n))"
  note np = n_pad_small[OF n, folded e_def]
  obtain M where M: "count_scans (2 ^ k) 1 (2 ^ e) = Some (1 + M)" "M = 0 \<or> M * k < e" "e \<le> (M + 1) * k"
    using count_scans_total[OF k, of 1 e] by blast
  have h: "hier k e M" using M(2,3) k by (simp add: hier_def)
  show ?thesis
    using n(1) M(1) np(1,2) scan_levels_padded[OF h lx np(3), of garbage 0]
    by (simp add: scan_def scan_init_def Let_def add.commute)
qed

lemma scan_overflow:
  assumes n: "2 ^ 30 < sint n" and k: "0 < k"
  shows "scan (2 ^ k) garbage n x = Some (Inl AllocationFailed)"
proof -
  obtain M where M: "count_scans (2 ^ k) 1 (2 ^ 31) = Some (1 + M)"
    using count_scans_total[OF k, of 1 31] by blast
  have "0 < sint n" using n by (simp add: less_trans[rotated])
  then show ?thesis using n_pad_overflow[OF n] M by (simp add: scan_def)
qed

subsection \<open>Mask, destination indices and scatter in compact\<close>

lemma kernMapToBoolean_mask: "length X = P \<Longrightarrow> kernMapToBoolean P X = mask_of X"
  unfolding kernMapToBoolean_def mask_of_def
  by (rule nth_equalityI) simp_all

lemma length_mask_of [simp]: "length (mask_of x) = length x"
  by (simp add: mask_of_def)

lemma count_nz_take_Suc:
  "i < length X \<Longrightarrow> count_nz (take (Suc i) X) = count_nz (take i X) + (if X ! i \<noteq> 0 then 1 else 0)"
  by (simp add: count_nz_def take_Suc_conv_app_nth)

lemma psum_mask: "i \<le> length X \<Longrightarrow> psum (mask_of X) 0 i = of_nat (count_nz (take i X))"
proof (induction i)
  case 0
  show ?case by (simp add: count_nz_def)
next
  case (Suc i)
  then have "mask_of X ! i = (if X ! i \<noteq> 0 then 1 else 0)" by (simp add: mask_of_def)
  then show ?case using Suc by (simp add: psum_Suc count_nz_take_Suc)
qed

lemma count_nz_le: "count_nz x \<le> length x"
  by (simp add: count_nz_def)

lemma count_nz_take_le: "count_nz (take i X) \<le> i"
  using count_nz_le[of "take i X"] by simp

lemma count_nz_take_mono: "i \<le> j \<Longrightarrow> count_nz (take i X) \<le> count_nz (take j X)"
proof -
  assume "i \<le> j"
  then have "take j X = take i X @ take (j - i) (drop i X)"
    by (metis le_add_diff_inverse take_add)
  then show ?thesis by (simp add: count_nz_def)
qed

lemma excl_scan_mask_nth:
  "i < length X \<Longrightarrow> excl_scan (mask_of X) ! i = of_nat (count_nz (take i X))"
  by (simp add: excl_scan_def psum_mask)

lemma dest_index:
  assumes "i < length X" "length X \<le> 2 ^ 30"
  shows "nat (sint (excl_scan (mask_of X) ! i)) = count_nz (take i X)"
proof -
  have "count_nz (take i X) < 2 ^ 31" using count_nz_take_le[of i X] assms by simp
  then show ?thesis using assms(1) by (simp add: excl_scan_mask_nth sint_of_nat_small)
qed

lemma length_scatter_thread [simp]: "length (scatter_thread idata bools indices gid odata) = length odata"
  by (simp add: scatter_thread_def)

lemma length_kernScatter [simp]: "length (kernScatter n odata idata bools indices) = length odata"
  unfolding kernScatter_def by (induction n) simp_all

lemma scatter_prefix:
  assumes lX: "length X \<le> 2 ^ 30" and lo: "length odata = length X"
  shows "m \<le> length X \<Longrightarrow>
     take (count_nz (take m X)) (kernScatter m odata X (mask_of X) (excl_scan (mask_of X)))
       = filter (\<lambda>v. v \<noteq> 0) (take m X)"
proof (induction m)
  case 0
  show ?case by (simp add: count_nz_def kernScatter_def)
next
  case (Suc m)
  define r where "r = kernScatter m odata X (mask_of X) (excl_scan (mask_of X))"
  define c where "c = count_nz (take m X)"
  have m: "m < length X" using Suc.prems by simp
  have IH: "take c r = filter (\<lambda>v. v \<noteq> 0) (take m X)" using Suc by (simp add: r_def c_def)
  have lr: "length r = length X" by (simp add: r_def lo)
  have c: "c < length r" using count_nz_take_le[of m X] m lr by (simp add: c_def)
  have step: "kernScatter (Suc m) odata X (mask_of X) (excl_scan (mask_of X)) =
      scatter_thread X (mask_of X) (excl_scan (mask_of X)) m r"
    by (simp add: kernScatter_def r_def)
  have di: "nat (sint (excl_scan (mask_of X) ! m)) = c" using dest_index[OF m lX] by (simp add: c_def)
  have mk: "(mask_of X ! m = 1) = (X ! m \<noteq> 0)" using m by (simp add: mask_of_def)
  have cs: "count_nz (take (Suc m) X) = c + (if X ! m \<noteq> 0 then 1 else 0)"
    using count_nz_take_Suc[OF m] by (simp add: c_def)
  have fs: "filter (\<lambda>v. v \<noteq> 0) (take (Suc m) X) =
      filter (\<lambda>v. v \<noteq> 0) (take m X) @ (if X ! m \<noteq> 0 then [X ! m] else [])"
    using m by (simp add: take_Suc_conv_app_nth)
  show ?case
  proof (cases "X ! m \<noteq> 0")
    case True
    have "take (Suc c) (r[c := X ! m]) = take c r @ [X ! m]"
      using c by (simp add: take_Suc_conv_app_nth)
    then show ?thesis
      unfolding step cs fs using True mk di IH by (simp add: scatter_thread_def)
  next
    case False
    then show ?thesis
      unfolding step cs fs using mk IH by (simp add: scatter_thread_def)
  qed
qed

lemma run_levels_alloc:
  assumes h: "hier k e M" and lX: "length X = 2 ^ e"
  shows "dev_odata (run_levels (2 ^ k) (level_sizes (2 ^ k) (M + 1) (2 ^ e)) (M + 1)
            ((alloc_levels garbage a0 (level_sizes (2 ^ k) (M + 1) (2 ^ e)))
              \<lparr>dev_idata := (dev_idata (alloc_levels garbage a0 (level_sizes (2 ^ k) (M + 1) (2 ^ e))))
                 [0 := X]\<rparr>)) ! 0 = excl_scan X"
proof -
  define sizes where "sizes = level_sizes (2 ^ k) (M + 1) (2 ^ e)"
  define s0 where "s0 = alloc_levels garbage a0 sizes"
  have ls: "length sizes = M + 1" by (simp add: sizes_def)
  have dl: "dev_lengths (M + 1) (s0\<lparr>dev_idata := (dev_idata s0)[0 := X]\<rparr>)"
    using dev_lengths_alloc[of sizes garbage a0] by (simp add: s0_def ls)
  have "length (dev_idata s0) = M + 1" using ls by (simp add: s0_def alloc_levels_def)
  then have d0: "dev_idata (s0\<lparr>dev_idata := (dev_idata s0)[0 := X]\<rparr>) ! 0 = X" by simp
  show ?thesis
    unfolding sizes_def[symmetric] s0_def[symmetric]
    unfolding sizes_def by (rule run_levels_odata[OF h lX dl[unfolded sizes_def] d0])
qed

lemma compact_idata_padded:
  "length x = n \<Longrightarrow> n \<le> P \<Longrightarrow> compact_idata garbage P n x = x @ replicate (P - n) 0"
  by (simp add: compact_idata_def cudaMemcpy_def cudaMemset0_def cudaMalloc_def)

lemma count_nz_padded [simp]: "count_nz (x @ replicate m 0) = count_nz x"
  by (simp add: count_nz_def)

lemma filter_padded [simp]: "filter (\<lambda>v. v \<noteq> 0) (x @ replicate m (0::int32)) = filter (\<lambda>v. v \<noteq> 0) x"
  by simp

lemma compact_kernels_overflow:
  assumes n: "2 ^ 30 < sint n" and k: "0 < k"
  shows "compact_kernels (2 ^ k) garbage n x = Some (Inl AllocationFailed)"
proof -
  obtain M where M: "count_scans (2 ^ k) 1 (2 ^ 31) = Some (1 + M)"
    using count_scans_total[OF k, of 1 31] by blast
  show ?thesis using n_pad_overflow[OF n] M by (simp add: compact_kernels_def)
qed

lemma compact_kernels_result:
  assumes n: "0 < sint n" "sint n \<le> 2 ^ 30" and k: "0 < k" and lx: "length x = nat (sint n)"
  shows "\<exists>r. compact_kernels (2 ^ k) garbage n x = Some (Inr r) \<and>
     c_idata r = x @ replicate (unat (n_pad_of n) - nat (sint n)) 0 \<and>
     c_bools r = mask_of (c_idata r) \<and>
     c_indices r = excl_scan (c_bools r) \<and>
     length (c_odata r) = unat (n_pad_of n) \<and>
     take (count_nz x) (c_odata r) = filter (\<lambda>v. v \<noteq> 0) x"
proof -
  define e where "e = ilog2ceil (nat (sint n))"
  define X where "X = x @ replicate (2 ^ e - nat (sint n)) 0"
  note np = n_pad_small[OF n, folded e_def]
  obtain M where M: "count_scans (2 ^ k) 1 (2 ^ e) = Some (1 + M)" "M = 0 \<or> M * k < e" "e \<le> (M + 1) * k"
    using count_scans_total[OF k, of 1 e] by blast
  have h: "hier k e M" using M(2,3) k by (simp add: hier_def)
  have lX: "length X = 2 ^ e" using np(3) lx by (simp add: X_def)
  have "(2::nat) ^ e \<le> 2 ^ 30" using np(4) by (intro power_increasing) simp_all
  then have lX30: "length X \<le> 2 ^ 30" using lX by simp
  have ci: "compact_idata garbage (2 ^ e) (nat (sint n)) x = X"
    unfolding X_def using lx np(3) by (intro compact_idata_padded) simp_all
  have mb: "kernMapToBoolean (2 ^ e) X = mask_of X" using lX by (rule kernMapToBoolean_mask)
  have cp: "cudaMemcpy dst (mask_of X) (2 ^ e) = mask_of X @ drop (2 ^ e) dst" for dst
    using lX by (simp add: cudaMemcpy_def)
  define sizes where "sizes = level_sizes (2 ^ k) (M + 1) (2 ^ e)"
  define s0 where "s0 = alloc_levels garbage 3 sizes"
  have "0 < length sizes" "sizes ! 0 = 2 ^ e" by (simp_all add: sizes_def)
  then have "length (dev_idata s0 ! 0) = 2 ^ e"
    using alloc_levels_idata0[of sizes garbage 3] by (simp add: s0_def)
  then have cp0: "cudaMemcpy (dev_idata s0 ! 0) (mask_of X) (2 ^ e) = mask_of X"
    by (simp add: cp)
  have rl: "dev_odata (run_levels (2 ^ k) sizes (M + 1) (s0\<lparr>dev_idata := (dev_idata s0)[0 := mask_of X]\<rparr>)) ! 0
      = excl_scan (mask_of X)"
    unfolding s0_def sizes_def using lX by (intro run_levels_alloc[OF h]) simp
  define od where "od = kernScatter (2 ^ e) (cudaMalloc garbage 1 (2 ^ e)) X (mask_of X) (excl_scan (mask_of X))"
  have lod: "length od = 2 ^ e" by (simp add: od_def cudaMalloc_def)
  have "take (count_nz (take (2 ^ e) X)) od = filter (\<lambda>v. v \<noteq> 0) (take (2 ^ e) X)"
    unfolding od_def using lX30 lX by (intro scatter_prefix) (simp_all add: cudaMalloc_def)
  then have sc: "take (count_nz x) od = filter (\<lambda>v. v \<noteq> 0) x"
    using lX by (simp add: X_def)
  have "compact_kernels (2 ^ k) garbage n x =
     Some (Inr \<lparr>c_idata = X, c_bools = mask_of X, c_indices = excl_scan (mask_of X), c_odata = od\<rparr>)"
    using M(1) np(1,2) rl[unfolded s0_def sizes_def] cp0[unfolded s0_def sizes_def]
    by (simp add: compact_kernels_def Let_def ci mb od_def add.commute)
  then show ?thesis using lod sc np(1) by (simp add: X_def)
qed

lemma compact_len_count:
  assumes "0 < n" "n \<le> length X"
  shows "take n (excl_scan (mask_of X)) ! (n - 1) + take n (mask_of X) ! (n - 1) = of_nat (count_nz (take n X))"
proof -
  obtain m where m: "n = Suc m" using assms(1) by (cases n) auto
  then have mX: "m < length X" using assms(2) by simp
  have e1: "excl_scan (mask_of X) ! m = of_nat (count_nz (take m X))"
    using mX by (rule excl_scan_mask_nth)
  have e2: "mask_of X ! m = (if X ! m \<noteq> 0 then 1 else 0)" using mX by (simp add: mask_of_def)
  have e3: "take (Suc m) (excl_scan (mask_of X)) ! m = excl_scan (mask_of X) ! m"
    "take (Suc m) (mask_of X) ! m = mask_of X ! m" by simp_all
  show ?thesis
    unfolding m diff_Suc_1 e3 e1 e2 count_nz_take_Suc[OF mX] by simp
qed

lemma compact_result:
  assumes n: "0 < sint n" "sint n \<le> 2 ^ 30" and k: "0 < k" and lx: "length x = nat (sint n)"
  shows "\<exists>r. compact_kernels (2 ^ k) garbage n x = Some (Inr r) \<and>
     compact (2 ^ k) garbage n x = Some (Inr (take (nat (sint n)) (c_odata r), of_nat (count_nz x))) \<and>
     c_indices r ! (nat (sint n) - 1) + c_bools r ! (nat (sint n) - 1) = of_nat (count_nz x)"
proof -
  obtain r where r: "compact_kernels (2 ^ k) garbage n x = Some (Inr r)"
     "c_idata r = x @ replicate (unat (n_pad_of n) - nat (sint n)) 0"
     "c_bools r = mask_of (c_idata r)" "c_indices r = excl_scan (c_bools r)"
    using compact_kernels_result[OF assms] by blast
  define X where "X = c_idata r"
  have nn: "0 < nat (sint n)" "nat (sint n) \<le> length X" using n(1) lx by (simp_all add: X_def r(2))
  have "take (nat (sint n)) X = x" using lx by (simp add: X_def r(2))
  then have cl: "take (nat (sint n)) (excl_scan (mask_of X)) ! (nat (sint n) - 1)
        + take (nat (sint n)) (mask_of X) ! (nat (sint n) - 1) = of_nat (count_nz x)"
    using compact_len_count[OF nn] by simp
  then have cl': "excl_scan (mask_of X) ! (nat (sint n) - 1) + mask_of X ! (nat (sint n) - 1)
      = of_nat (count_nz x)"
    using nn by simp
  show ?thesis
    using r(1) n(1) cl cl' by (auto simp: compact_def Let_def r(3,4) X_def[symmetric])
qed

subsection \<open>Further facts for the claims\<close>

lemma psum_sum_list: "i \<le> length x \<Longrightarrow> psum x 0 i = sum_list (take i x)"
proof (induction i)
  case 0
  show ?case by simp
next
  case (Suc i)
  then show ?case by (simp add: psum_Suc take_Suc_conv_app_nth)
qed

lemma sint_n_pad_small:
  assumes "0 < sint n" "sint n \<le> 2 ^ 30"
  shows "sint (n_pad_of n) = 2 ^ ilog2ceil (nat (sint n))"
proof -
  have "(2::nat) ^ ilog2ceil (nat (sint n)) \<le> 2 ^ 30"
    using n_pad_small(4)[OF assms] by (intro power_increasing) simp_all
  then have "(2::nat) ^ ilog2ceil (nat (sint n)) < 2 ^ 31" by simp
  then have "sint (of_nat (2 ^ ilog2ceil (nat (sint n))) :: int32) = int (2 ^ ilog2ceil (nat (sint n)))"
    by (rule sint_of_nat_small)
  then show ?thesis unfolding n_pad_of_eq by simp
qed

lemma group_last_slot:
  assumes bs: "0 < (bs::nat)" and b: "b < (n + bs - 1) div bs"
  shows "min ((b + 1) * bs) n - 1 < n" "(min ((b + 1) * bs) n - 1) div bs = b"
    "b * bs \<le> min ((b + 1) * bs) n - 1"
proof -
  have "b + 1 \<le> (n + bs - 1) div bs" using b by linarith
  then have "(b + 1) * bs \<le> ((n + bs - 1) div bs) * bs" by (rule mult_le_mono1)
  also have "\<dots> \<le> n + bs - 1" by simp
  finally have lt: "b * bs < n" using bs by simp
  then show l: "min ((b + 1) * bs) n - 1 < n" by simp
  show ge: "b * bs \<le> min ((b + 1) * bs) n - 1" using lt bs by simp
  have "min ((b + 1) * bs) n - 1 < (b + 1) * bs" using bs by simp
  then show "(min ((b + 1) * bs) n - 1) div bs = b"
    using ge by (intro div_nat_eqI) (simp_all add: mult.commute)
qed

lemma sint_count_nz:
  assumes "length x \<le> 2 ^ 30"
  shows "sint (of_nat (count_nz x) :: int32) = int (count_nz x)"
proof -
  have "count_nz x < 2 ^ 31" using count_nz_le[of x] assms by simp
  then show ?thesis by (rule sint_of_nat_small)
qed

lemma compact_overflow:
  assumes n: "2 ^ 30 < sint n" and k: "0 < k"
  shows "compact (2 ^ k) garbage n x = Some (Inl AllocationFailed)"
proof -
  have "\<not> sint n \<le> 0" using n by simp
  then show ?thesis using compact_kernels_overflow[OF n k, of garbage x] by (simp add: compact_def)
qed

lemma psum_upt [code]: "psum x l r = sum_list (map (\<lambda>j. x ! j) [l..<r])"
  by (simp add: psum_def interv_sum_list_conv_sum_set_nat)

subsection \<open>The single-level reference computes the exclusive prefix sums\<close>

lemma spec_upsweep_step_threads:
  "spec_upsweep_step d a = fold (upsweep_thread d) [0..<length a] a"
proof -
  have "(\<lambda>i. if i mod 2 ^ (d + 1) = 0
        then (\<lambda>a. a[i + 2 ^ (d + 1) - 1 := a ! (i + 2 ^ (d + 1) - 1) + a ! (i + 2 ^ d - 1)])
        else id) = upsweep_thread d"
    by (intro ext) (simp add: upsweep_thread_def)
  then show ?thesis unfolding spec_upsweep_step_def fold_filter by (simp only:)
qed

lemma spec_downsweep_step_bodies:
  "spec_downsweep_step d a = fold (down_body (2 ^ d) (2 ^ (d + 1))) [0..<length a] a"
proof -
  have "(\<lambda>i. if i mod 2 ^ (d + 1) = 0
        then (\<lambda>a. a[i + 2 ^ d - 1 := a ! (i + 2 ^ (d + 1) - 1),
                    i + 2 ^ (d + 1) - 1 := a ! (i + 2 ^ (d + 1) - 1) + a ! (i + 2 ^ d - 1)])
        else id) = down_body (2 ^ d) (2 ^ (d + 1))"
    by (intro ext) (simp add: down_body_def mod_eq_0_iff_dvd)
  then show ?thesis unfolding spec_downsweep_step_def fold_filter by (simp only:)
qed

lemma spec_upsweep_inv:
  "2 ^ L dvd length x \<Longrightarrow> d \<le> L \<Longrightarrow> up_inv x d (fold spec_upsweep_step [0..<d] x)"
proof (induction d)
  case 0
  then show ?case by (simp add: up_inv_0)
next
  case (Suc d)
  define a where "a = fold spec_upsweep_step [0..<d] x"
  have inv: "up_inv x d a" using Suc by (simp add: a_def)
  then have la: "length a = length x" by (simp add: up_inv_def)
  have "2 ^ (d + 1) dvd (2::nat) ^ L" using Suc.prems(2) by (intro pow2_dvd_mono) simp
  then have "2 ^ (d + 1) dvd length x" using Suc.prems(1) by (rule dvd_trans)
  then have "up_inv x (d + 1) (fold (upsweep_thread d) [0..<length x] a)"
    using inv by (intro up_inv_step)
  then have "up_inv x (d + 1) (spec_upsweep_step d a)"
    unfolding spec_upsweep_step_threads la .
  moreover have "fold spec_upsweep_step [0..<Suc d] x = spec_upsweep_step d a"
    by (simp add: a_def)
  ultimately show ?case by simp
qed

lemma spec_downsweep_inv:
  assumes B: "B = 2 ^ L" "B dvd length x" and start: "down_inv x B L a"
  shows "d \<le> L \<Longrightarrow> down_inv x B d (fold spec_downsweep_step (rev [d..<L]) a)"
proof (induction "L - d" arbitrary: d)
  case 0
  then show ?case using start by simp
next
  case (Suc j)
  then have d: "d < L" "j = L - (d + 1)" "d + 1 \<le> L" by simp_all
  have r: "rev [d..<L] = rev [d + 1..<L] @ [d]" using d(1) by (simp add: upt_conv_Cons)
  define c where "c = fold spec_downsweep_step (rev [d + 1..<L]) a"
  have inv: "down_inv x B (d + 1) c" using Suc.hyps(1)[OF d(2,3)] by (simp add: c_def)
  then have lc: "length c = length x" by (simp add: down_inv_def)
  have q: "2 ^ (d + 1) dvd B" unfolding B(1) using d(3) by (rule pow2_dvd_mono)
  then have qc: "2 ^ (d + 1) dvd length c" using B(2) lc by (metis dvd_trans)
  have Bpos: "0 < B" by (simp add: B(1))
  have "down_inv x B d (fold (downsweep_thread d) [0..<length x] c)"
    using inv q Bpos B(2) by (rule down_inv_step)
  moreover have "fold (downsweep_thread d) [0..<length x] c = spec_downsweep_step d c"
    using fold_downsweep_body[OF qc] unfolding spec_downsweep_step_bodies lc .
  ultimately have "down_inv x B d (spec_downsweep_step d c)" by simp
  moreover have "fold spec_downsweep_step (rev [d + 1..<L] @ [d]) a = spec_downsweep_step d c"
    by (simp add: c_def)
  ultimately show ?case unfolding r by simp
qed

lemma spec_in_group_scan_shifted:
  assumes lX: "length X = 2 ^ e"
  shows "0 # butlast (spec_in_group_scan X) = excl_scan X"
proof -
  define m :: nat where "m = 2 ^ e"
  have mpos: "0 < m" by (simp add: m_def)
  have lm: "length X = m" using lX by (simp add: m_def)
  have lg: "ilog2ceil (length X) = e" by (simp add: lX)
  define up where "up = fold spec_upsweep_step [0..<e] X"
  have up: "up_inv X e up"
    unfolding up_def by (rule spec_upsweep_inv[of e]) (simp_all add: lX)
  have lup: "length up = m" using up by (simp add: up_inv_def lm)
  have upt: "\<And>i t. i < m \<Longrightarrow> t < e \<Longrightarrow> 2 ^ t dvd (i + 1) \<Longrightarrow> \<not> 2 ^ (t + 1) dvd (i + 1)
       \<Longrightarrow> up ! i = psum X (i + 1 - 2 ^ t) (i + 1)"
    using up unfolding up_inv_def lm by (meson less_imp_le)
  define cleared where "cleared = up[m - 1 := 0]"
  have lcl: "length cleared = m" by (simp add: cleared_def lup)
  have last_only: "i = m - 1" if "i < m" "m dvd (i + 1)" for i
  proof -
    have "m \<le> i + 1" using that(2) by (intro dvd_imp_le) simp_all
    then show ?thesis using that(1) by simp
  qed
  have c1: "cleared ! i = psum X ((i div m) * m) (i + 1 - 2 ^ e)"
    if "i < m" "2 ^ e dvd (i + 1)" for i
  proof -
    have i: "i = m - 1" using last_only[OF that(1)] that(2) by (simp add: m_def)
    then have "i + 1 - 2 ^ e = 0" "i div m = 0" using mpos that(1) by (simp_all add: m_def)
    then show ?thesis using i lup mpos by (simp add: cleared_def)
  qed
  have c2: "cleared ! i = psum X (i + 1 - 2 ^ t) (i + 1)"
    if i: "i < m" and t: "t < e" "2 ^ t dvd (i + 1)" "\<not> 2 ^ (t + 1) dvd (i + 1)" for i t
  proof -
    have "2 ^ (t + 1) dvd m" unfolding m_def using t(1) by (intro pow2_dvd_mono) simp
    then have "i \<noteq> m - 1" using t(3) mpos by auto
    then show ?thesis using upt[OF i t] by (simp add: cleared_def)
  qed
  have dinv0: "down_inv X m e cleared"
    unfolding down_inv_def lm using lcl c1 c2 by blast
  define down where "down = fold spec_downsweep_step (rev [0..<e]) cleared"
  have "down_inv X m 0 down"
    unfolding down_def using spec_downsweep_inv[OF m_def _ dinv0, of 0] lm by simp
  then have dn: "\<And>i. i < m \<Longrightarrow> down ! i = psum X 0 i" and ldn: "length down = m"
    by (simp_all add: down_inv_def lm)
  have sg: "spec_in_group_scan X = drop 1 down @ [up ! (m - 1)]"
    using lg by (simp add: spec_in_group_scan_def Let_def up_def cleared_def down_def lm)
  have "0 # butlast (spec_in_group_scan X) = 0 # drop 1 down" unfolding sg by simp
  also have "\<dots> = excl_scan X"
  proof (rule nth_equalityI)
    show "length (0 # drop 1 down) = length (excl_scan X)" using ldn lm mpos by simp
  next
    fix i assume "i < length (0 # drop 1 down)"
    then have i: "i < m" using ldn mpos by simp
    show "(0 # drop 1 down) ! i = excl_scan X ! i"
    proof (cases i)
      case 0
      then show ?thesis using mpos lm by (simp add: excl_scan_def)
    next
      case (Suc j)
      then show ?thesis using i dn[of i] ldn lm by (simp add: excl_scan_def)
    qed
  qed
  finally show ?thesis .
qed

lemma single_level_scan_result:
  assumes "length x = n"
  shows "single_level_scan n x = excl_scan x"
proof -
  define X where "X = x @ replicate (2 ^ ilog2ceil n - n) 0"
  have "length X = 2 ^ ilog2ceil n" using assms ilog2ceil_ge[of n] by (simp add: X_def)
  then have "0 # butlast (spec_in_group_scan X) = excl_scan X" by (rule spec_in_group_scan_shifted)
  moreover have "take n (excl_scan X) = excl_scan x"
    unfolding X_def using assms by (rule take_excl_scan_prefix)
  ultimately show ?thesis using assms by (simp add: single_level_scan_def Let_def X_def[symmetric])
qed

subsection \<open>The examples of the spec, evaluated\<close>

text \<open>
  With a block size of 4 (two levels for 8 elements) and of 2 (three levels). The output
  of \<open>compact\<close> has \<open>n\<close> elements; those after the kept ones are what the device buffer
  held.
\<close>

lemma scan_spec_example:
  "scan 4 garbage7 8 [1, 2, 3, 4, 5, 6, 7, 8] = Some (Inr [0, 1, 3, 6, 10, 15, 21, 28])"
  by code_simp

lemma compact_spec_example:
  "compact 4 garbage7 8 [1, 0, 0, 3, 0, 4, 0, 0] = Some (Inr ([1, 3, 4, 7, 7, 7, 7, 7], 3))"
  by code_simp

lemma scan_single_element: "scan 4 garbage7 1 [5] = Some (Inr [0])"
  by code_simp

lemma scan_three_levels:
  "scan 2 garbage7 7 [1, 2, 3, 4, 5, 6, 7] = Some (Inr [0, 1, 3, 6, 10, 15, 21])"
  by code_simp

section \<open>The claims\<close>

text \<open>
  In the theorems below \<open>2 ^ k\<close> with \<open>1 \<le> k \<le> 10\<close> is the block size
  \<open>Common::block_size_efficient\<close>: a power of two that a kernel launch accepts.
  \<open>garbage\<close> is whatever the freshly allocated device buffers contain.
\<close>

text \<open>
  C1 (as amended): for every \<open>n\<close> with \<open>0 < n \<le> 2^30\<close> and every input \<open>x\<close> of \<open>n\<close>
  32-bit integers, \<open>scan\<close> returns a sequence of length \<open>n\<close> whose first element is 0 and
  whose element \<open>i\<close> is element \<open>i - 1\<close> plus \<open>x[i - 1]\<close>, that is the sum of \<open>x[0..i-1]\<close>
  in 32-bit arithmetic.
\<close>

theorem scan_exclusive_prefix_sums:
  assumes "0 < sint n" "sint n \<le> 2 ^ 30" "0 < k" "k \<le> 10" "length x = nat (sint n)"
  shows "\<exists>out. scan (2 ^ k) garbage n x = Some (Inr out) \<and> length out = nat (sint n) \<and> out ! 0 = 0
      \<and> (\<forall>i. 1 \<le> i \<and> i < nat (sint n) \<longrightarrow> out ! i = out ! (i - 1) + x ! (i - 1))
      \<and> (\<forall>i < nat (sint n). out ! i = sum_list (take i x))"
proof -
  have s: "scan (2 ^ k) garbage n x = Some (Inr (excl_scan x))"
    using assms(1,2,3,5) by (rule scan_result)
  have pos: "0 < length x" using assms(1,5) by simp
  have e0: "excl_scan x ! 0 = 0" using pos by (simp add: excl_scan_def)
  have st: "excl_scan x ! i = excl_scan x ! (i - 1) + x ! (i - 1)" if "1 \<le> i" "i < length x" for i
  proof -
    from that(1) obtain j where j: "i = Suc j" by (cases i) simp_all
    then show ?thesis using that(2) by (simp add: excl_scan_def psum_Suc)
  qed
  have sl: "excl_scan x ! i = sum_list (take i x)" if "i < length x" for i
    using that by (simp add: excl_scan_def psum_sum_list)
  show ?thesis
  proof (intro exI[of _ "excl_scan x"] conjI allI impI)
    show "scan (2 ^ k) garbage n x = Some (Inr (excl_scan x))" by (rule s)
    show "length (excl_scan x) = nat (sint n)" using assms(5) by simp
    show "excl_scan x ! 0 = 0" by (rule e0)
  next
    fix i assume "1 \<le> i \<and> i < nat (sint n)"
    then have "1 \<le> i" "i < length x" using assms(5) by simp_all
    then show "excl_scan x ! i = excl_scan x ! (i - 1) + x ! (i - 1)" by (rule st)
  next
    fix i assume "i < nat (sint n)"
    then have "i < length x" using assms(5) by simp
    then show "excl_scan x ! i = sum_list (take i x)" by (rule sl)
  qed
qed

theorem scan_exclusive_prefix_sums_witness:
  "0 < sint (5 :: int32) \<and> sint (5 :: int32) \<le> 2 ^ 30 \<and> (0::nat) < 1 \<and> (1::nat) \<le> 10
   \<and> length [3, 1, 4, 1, 5 :: int32] = nat (sint (5 :: int32))
   \<and> (\<exists>out. scan (2 ^ 1) garbage7 5 [3, 1, 4, 1, 5] = Some (Inr out) \<and> length out = nat (sint (5 :: int32))
      \<and> out ! 0 = 0
      \<and> (\<forall>i. 1 \<le> i \<and> i < nat (sint (5 :: int32)) \<longrightarrow> out ! i = out ! (i - 1) + [3, 1, 4, 1, 5] ! (i - 1))
      \<and> (\<forall>i < nat (sint (5 :: int32)). out ! i = sum_list (take i [3, 1, 4, 1, 5])))"
proof -
  have h: "0 < sint (5 :: int32)" "sint (5 :: int32) \<le> 2 ^ 30" "(0::nat) < 1" "(1::nat) \<le> 10"
    "length [3, 1, 4, 1, 5 :: int32] = nat (sint (5 :: int32))" by simp_all
  show ?thesis using h scan_exclusive_prefix_sums [OF h, of garbage7] by blast
qed

text \<open>
  The claim as stated, for every \<open>n > 0\<close>, fails at \<open>n = 2^30 + 1\<close>: \<open>n_pad\<close> is then
  \<open>1 << 31\<close>, which is negative as an \<open>int\<close>, and the run ends at the first allocation.
\<close>

theorem scan_large_n_counterexample:
  "0 < sint (2 ^ 30 + 1 :: int32)
   \<and> length (replicate (2 ^ 30 + 1) (0 :: int32)) = nat (sint (2 ^ 30 + 1 :: int32))
   \<and> scan (2 ^ 7) garbage7 (2 ^ 30 + 1) (replicate (2 ^ 30 + 1) 0) = Some (Inl AllocationFailed)"
proof -
  have h: "2 ^ 30 < sint (2 ^ 30 + 1 :: int32)" by simp
  show ?thesis using h scan_overflow [OF h, of 7 garbage7] by simp
qed

text \<open>
  C2 (as amended): for every \<open>n\<close> with \<open>0 < n \<le> 2^30\<close> and every input of \<open>n\<close> 32-bit
  integers, \<open>compact\<close> returns a pair \<open>(out, cnt)\<close> where \<open>cnt\<close> is the number of nonzero
  elements of the input and the first \<open>cnt\<close> elements of \<open>out\<close> are exactly those nonzero
  elements in their original order; nothing is said about the elements of \<open>out\<close> from
  position \<open>cnt\<close> on.
\<close>

theorem compact_keeps_nonzero_in_order:
  assumes "0 < sint n" "sint n \<le> 2 ^ 30" "0 < k" "k \<le> 10" "length x = nat (sint n)"
  shows "\<exists>out cnt. compact (2 ^ k) garbage n x = Some (Inr (out, cnt))
      \<and> sint cnt = int (length (filter (\<lambda>v. v \<noteq> 0) x))
      \<and> length out = nat (sint n)
      \<and> take (length (filter (\<lambda>v. v \<noteq> 0) x)) out = filter (\<lambda>v. v \<noteq> 0) x"
proof -
  obtain r where r: "compact_kernels (2 ^ k) garbage n x = Some (Inr r)"
     "length (c_odata r) = unat (n_pad_of n)"
     "take (count_nz x) (c_odata r) = filter (\<lambda>v. v \<noteq> 0) x"
    using compact_kernels_result[OF assms(1,2,3,5)] by blast
  obtain r' where r': "compact_kernels (2 ^ k) garbage n x = Some (Inr r')"
     "compact (2 ^ k) garbage n x = Some (Inr (take (nat (sint n)) (c_odata r'), of_nat (count_nz x)))"
    using compact_result[OF assms(1,2,3,5)] by blast
  have rr: "r' = r" using r(1) r'(1) by simp
  have l30: "length x \<le> 2 ^ 30" using assms(2,5) by (simp add: nat_le_iff)
  have np: "nat (sint n) \<le> unat (n_pad_of n)" using n_pad_small(1,3)[OF assms(1,2)] by simp
  have c: "count_nz x \<le> nat (sint n)" using count_nz_le[of x] assms(5) by simp
  have t: "take (count_nz x) (take (nat (sint n)) (c_odata r)) = filter (\<lambda>v. v \<noteq> 0) x"
    using c r(3) by (simp add: min_absorb1)
  show ?thesis
  proof (intro exI conjI)
    show "compact (2 ^ k) garbage n x = Some (Inr (take (nat (sint n)) (c_odata r), of_nat (count_nz x)))"
      using r'(2) rr by simp
    show "sint (of_nat (count_nz x) :: int32) = int (length (filter (\<lambda>v. v \<noteq> 0) x))"
      using sint_count_nz[OF l30] by (simp add: count_nz_def)
    show "length (take (nat (sint n)) (c_odata r)) = nat (sint n)" using r(2) np by simp
    show "take (length (filter (\<lambda>v. v \<noteq> 0) x)) (take (nat (sint n)) (c_odata r)) = filter (\<lambda>v. v \<noteq> 0) x"
      using t by (simp add: count_nz_def)
  qed
qed

theorem compact_keeps_nonzero_in_order_witness:
  "0 < sint (3 :: int32) \<and> sint (3 :: int32) \<le> 2 ^ 30 \<and> (0::nat) < 1 \<and> (1::nat) \<le> 10
   \<and> length [5, 0, 6 :: int32] = nat (sint (3 :: int32))
   \<and> (\<exists>out cnt. compact (2 ^ 1) garbage7 3 [5, 0, 6] = Some (Inr (out, cnt))
      \<and> sint cnt = int (length (filter (\<lambda>v. v \<noteq> 0) [5, 0, 6 :: int32]))
      \<and> length out = nat (sint (3 :: int32))
      \<and> take (length (filter (\<lambda>v. v \<noteq> 0) [5, 0, 6 :: int32])) out = filter (\<lambda>v. v \<noteq> 0) [5, 0, 6])"
proof -
  have h: "0 < sint (3 :: int32)" "sint (3 :: int32) \<le> 2 ^ 30" "(0::nat) < 1" "(1::nat) \<le> 10"
    "length [5, 0, 6 :: int32] = nat (sint (3 :: int32))" by simp_all
  show ?thesis using h compact_keeps_nonzero_in_order [OF h, of garbage7] by blast
qed

text \<open>For \<open>n = 2^30 + 1\<close> the same overflow of \<open>n_pad\<close> ends \<open>compact\<close> without a result.\<close>

theorem compact_large_n_counterexample:
  "0 < sint (2 ^ 30 + 1 :: int32)
   \<and> length (replicate (2 ^ 30 + 1) (1 :: int32)) = nat (sint (2 ^ 30 + 1 :: int32))
   \<and> compact (2 ^ 7) garbage7 (2 ^ 30 + 1) (replicate (2 ^ 30 + 1) 1) = Some (Inl AllocationFailed)"
proof -
  have h: "2 ^ 30 < sint (2 ^ 30 + 1 :: int32)" by simp
  show ?thesis using h compact_overflow [OF h, of 7 garbage7] by simp
qed

text \<open>
  C3 (as amended): for every \<open>n\<close> larger than one group's capacity and at most \<open>2^30\<close>,
  the multi-level \<open>scan\<close> returns a list, and it is, bit for bit, the list that the
  single-level algorithm of the spec gives on the same data with one group of unlimited
  capacity: \<open>n\<close> elements, element \<open>i\<close> being the sum of \<open>x[0..i-1]\<close>.
\<close>

theorem scan_levels_agree_with_single_level:
  assumes "0 < k" "k \<le> 10" "2 ^ k < sint n" "sint n \<le> 2 ^ 30" "length x = nat (sint n)"
  shows "\<exists>out. scan (2 ^ k) garbage n x = Some (Inr out)
      \<and> single_level_scan (nat (sint n)) x = out
      \<and> length out = nat (sint n)
      \<and> (\<forall>i < nat (sint n). out ! i = sum_list (take i x))"
proof -
  have pos: "0 < sint n" using assms(3) by (simp add: less_trans[rotated])
  have s: "scan (2 ^ k) garbage n x = Some (Inr (excl_scan x))"
    using pos assms(4,1,5) by (rule scan_result)
  have r: "single_level_scan (nat (sint n)) x = excl_scan x"
    using assms(5) by (rule single_level_scan_result)
  have sl: "excl_scan x ! i = sum_list (take i x)" if "i < length x" for i
    using that by (simp add: excl_scan_def psum_sum_list)
  show ?thesis
  proof (intro exI[of _ "excl_scan x"] conjI allI impI)
    show "scan (2 ^ k) garbage n x = Some (Inr (excl_scan x))" by (rule s)
    show "single_level_scan (nat (sint n)) x = excl_scan x" by (rule r)
    show "length (excl_scan x) = nat (sint n)" using assms(5) by simp
  next
    fix i assume "i < nat (sint n)"
    then have "i < length x" using assms(5) by simp
    then show "excl_scan x ! i = sum_list (take i x)" by (rule sl)
  qed
qed

theorem scan_levels_agree_with_single_level_witness:
  "(0::nat) < 1 \<and> (1::nat) \<le> 10 \<and> 2 ^ 1 < sint (5 :: int32) \<and> sint (5 :: int32) \<le> 2 ^ 30
   \<and> length [3, 1, 4, 1, 5 :: int32] = nat (sint (5 :: int32))
   \<and> scan (2 ^ 1) garbage7 5 [3, 1, 4, 1, 5] = Some (Inr [0, 3, 4, 8, 9])
   \<and> single_level_scan (nat (sint (5 :: int32))) [3, 1, 4, 1, 5] = [0, 3, 4, 8, 9]"
proof -
  have h: "(0::nat) < 1" "(1::nat) \<le> 10" "2 ^ 1 < sint (5 :: int32)" "sint (5 :: int32) \<le> 2 ^ 30"
    "length [3, 1, 4, 1, 5 :: int32] = nat (sint (5 :: int32))" by simp_all
  have n5: "nat (sint (5 :: int32)) = 5" by simp
  have e: "single_level_scan 5 [3, 1, 4, 1, 5] = [0, 3, 4, 8, 9]" by code_simp
  obtain out where out: "scan (2 ^ 1) garbage7 5 [3, 1, 4, 1, 5] = Some (Inr out)"
      "single_level_scan (nat (sint (5 :: int32))) [3, 1, 4, 1, 5] = out"
    using scan_levels_agree_with_single_level [OF h, of garbage7] by blast
  have "out = [0, 3, 4, 8, 9]" using out(2) e unfolding n5 by simp
  then show ?thesis using h out by simp
qed

text \<open>
  For \<open>n = 2^30 + 3\<close>, above the capacity \<open>2^7\<close>, the single-level algorithm gives its
  \<open>n\<close> elements while \<open>scan\<close> ends at the first allocation and returns no list.
\<close>

theorem scan_levels_large_n_counterexample:
  "2 ^ 7 < sint (2 ^ 30 + 3 :: int32)
   \<and> length (replicate (2 ^ 30 + 3) (1 :: int32)) = nat (sint (2 ^ 30 + 3 :: int32))
   \<and> scan (2 ^ 7) garbage7 (2 ^ 30 + 3) (replicate (2 ^ 30 + 3) 1) = Some (Inl AllocationFailed)
   \<and> length (single_level_scan (nat (sint (2 ^ 30 + 3 :: int32))) (replicate (2 ^ 30 + 3) 1))
       = nat (sint (2 ^ 30 + 3 :: int32))"
proof -
  have h: "2 ^ 30 < sint (2 ^ 30 + 3 :: int32)" by simp
  have l: "length (replicate (2 ^ 30 + 3) (1 :: int32)) = nat (sint (2 ^ 30 + 3 :: int32))" by simp
  have "length (single_level_scan (nat (sint (2 ^ 30 + 3 :: int32))) (replicate (2 ^ 30 + 3) 1))
      = nat (sint (2 ^ 30 + 3 :: int32))"
    unfolding single_level_scan_result [OF l] by simp
  then show ?thesis using scan_overflow [OF h, of 7 garbage7] by simp
qed

text \<open>
  C4: at every level \<open>i\<close> of the hierarchy and for every group \<open>b\<close> of that level, once the
  in-group scan of the level has run (\<open>after\<close>), the last slot of the group in the
  level's scratch buffer holds the sum of the group's inputs; this is the group's exclusive
  in-group scan value at that slot plus the original last element; if a further level
  exists, it is the value written to position \<open>b\<close> of the next level's input buffer; and
  it is still there when the upward pass is over, before any offset is propagated.
  \<open>before\<close> is the state in which level \<open>i\<close>'s kernel is launched.
\<close>

theorem group_total_feeds_next_level:
  assumes k: "0 < k" "k \<le> 10"
    and cs: "count_scans (2 ^ k) 1 (2 ^ e) = Some num_scans"
    and s: "dev_lengths num_scans s" "length (dev_idata s ! 0) = 2 ^ e"
    and sizes: "array_sizes = level_sizes (2 ^ k) num_scans (2 ^ e)"
    and before: "before = fold (upward_step (2 ^ k) array_sizes num_scans) [0..<i] s"
    and after: "after = upward_step (2 ^ k) array_sizes num_scans i before"
    and i: "i < num_scans"
    and b: "b < (array_sizes ! i + 2 ^ k - 1) div 2 ^ k"
    and slot: "slot = min ((b + 1) * 2 ^ k) (array_sizes ! i) - 1"
  shows "dev_buffer after ! i ! slot = psum (dev_idata before ! i) (b * 2 ^ k) (slot + 1)
    \<and> dev_buffer after ! i ! slot =
        snd (kernScanInclusive (2 ^ k) (array_sizes ! i) (dev_idata before ! i)) ! slot
          + dev_idata before ! i ! slot
    \<and> (i + 1 < num_scans \<longrightarrow> dev_idata after ! (i + 1) ! b = dev_buffer after ! i ! slot)
    \<and> dev_buffer (upward_pass (2 ^ k) array_sizes num_scans s) ! i ! slot = dev_buffer after ! i ! slot"
proof -
  obtain M where M: "count_scans (2 ^ k) 1 (2 ^ e) = Some (1 + M)" "M = 0 \<or> M * k < e" "e \<le> (M + 1) * k"
    using count_scans_total[OF k(1), of 1 e] by blast
  have N: "num_scans = M + 1" using cs M(1) by simp
  have h: "hier k e M" using M(2,3) k(1) by (simp add: hier_def)
  define x where "x = dev_idata s ! 0"
  have lx: "length x = 2 ^ e" using s(2) by (simp add: x_def)
  have iM: "i \<le> M" using i N by simp
  define y where "y = lvl (2 ^ k) x i"
  define bs :: nat where "bs = 2 ^ k"
  have bs: "0 < bs" by (simp add: bs_def)
  have ok: "up_ok (2 ^ k) x (M + 1) i before"
    unfolding before sizes N
    using s(1) iM by (intro upward_pass_ok[OF h lx]) (simp_all add: N x_def)
  then have bef: "dev_idata before ! i = y" and dl: "dev_lengths (M + 1) before"
    using iM by (simp_all add: up_ok_def y_def)
  have sz: "array_sizes ! i = length y"
    unfolding sizes N y_def using hier_sizes[OF h iM] hier_length_lvl[OF h lx iM] by simp
  have ly: "length y = 2 ^ (e - i * k)" unfolding y_def using hier_length_lvl[OF h lx iM] .
  have af: "after =
     before\<lparr>dev_buffer := (dev_buffer before)[i := incl_blocks (2 ^ k) y],
       dev_idata := (if i < M
          then (dev_idata before)[i := incl_blocks (2 ^ k) y, i + 1 := lvl (2 ^ k) x (i + 1)]
          else (dev_idata before)[i := incl_blocks (2 ^ k) y])\<rparr>"
    unfolding after sizes N y_def
    using dl bef[unfolded y_def] by (intro upward_step_result[OF h lx iM])
  have li: "i < length (dev_buffer before)" "i + 1 < M + 1 \<Longrightarrow> i + 1 < length (dev_idata before)"
    using dl iM by (simp_all add: dev_lengths_def)
  have bb: "b < (length y + bs - 1) div bs" using b by (simp add: sz bs_def)
  have la: "slot < length y" "slot div bs = b" "b * bs \<le> slot"
    using group_last_slot[OF bs bb] by (simp_all add: slot sz bs_def)
  have bufi: "dev_buffer after ! i = incl_blocks bs y" using li(1) by (simp add: af bs_def)
  have c1: "dev_buffer after ! i ! slot = psum y (b * bs) (slot + 1)"
    using la by (simp add: bufi incl_blocks_def)
  have kern: "kernScanInclusive (2 ^ k) (array_sizes ! i) y = (incl_blocks (2 ^ k) y, excl_blocks (2 ^ k) y)"
    unfolding sz ly using ly by (rule kernScanInclusive_scans)
  have "excl_blocks bs y ! slot + y ! slot = psum y (b * bs) slot + y ! slot"
    using la by (simp add: excl_blocks_def)
  also have "\<dots> = psum y (b * bs) (slot + 1)" using la(3) by (simp add: psum_Suc)
  finally have c2: "dev_buffer after ! i ! slot = snd (kernScanInclusive (2 ^ k) (array_sizes ! i) y) ! slot + y ! slot"
    using c1 by (simp add: kern bs_def)
  have c3: "dev_idata after ! (i + 1) ! b = dev_buffer after ! i ! slot" if "i + 1 < num_scans"
  proof -
    have iM': "i < M" using that N by simp
    have dv: "bs dvd length y" unfolding ly bs_def using hier_dvd[OF h iM'] .
    then obtain q where q: "length y = bs * q" by (auto elim: dvdE)
    have bq: "b < length y div bs"
    proof -
      have "bs * q \<le> bs * q + bs - 1" "bs * q + bs - 1 < bs * Suc q" using bs by simp_all
      then have "(bs * q + bs - 1) div bs = q" by (rule div_nat_eqI)
      then show ?thesis using bb bs by (simp add: q)
    qed
    then have "b + 1 \<le> q" using bs by (simp add: q)
    then have "(b + 1) * bs \<le> q * bs" by (rule mult_le_mono1)
    then have "(b + 1) * bs \<le> length y" by (simp add: q mult.commute)
    then have l1: "slot + 1 = b * bs + bs" using bs by (simp add: slot sz bs_def)
    have "dev_idata after ! (i + 1) = block_totals bs y"
      using iM' li(2) by (simp add: af y_def bs_def)
    then have "dev_idata after ! (i + 1) ! b = psum y (b * bs) (b * bs + bs)"
      using bq by (simp add: block_totals_def)
    then show ?thesis unfolding c1 l1 .
  qed
  have "up_ok (2 ^ k) x (M + 1) (M + 1) (upward_pass (2 ^ k) array_sizes num_scans s)"
    unfolding upward_pass_def sizes N
    using s(1) by (intro upward_pass_ok[OF h lx]) (simp_all add: N x_def)
  then have "dev_buffer (upward_pass (2 ^ k) array_sizes num_scans s) ! i = incl_blocks bs y"
    using iM by (simp add: up_ok_def y_def bs_def)
  then have c4: "dev_buffer (upward_pass (2 ^ k) array_sizes num_scans s) ! i ! slot = dev_buffer after ! i ! slot"
    by (simp add: bufi)
  show ?thesis using c1 c2 c3 c4 unfolding bef bs_def by blast
qed

theorem group_total_feeds_next_level_witness:
  "(0::nat) < 1 \<and> (1::nat) \<le> 10
   \<and> count_scans (2 ^ 1) 1 (2 ^ 2) = Some 2
   \<and> dev_lengths 2 (scan_init garbage7 (level_sizes (2 ^ 1) 2 (2 ^ 2)) 3 [3, 1, 4])
   \<and> length (dev_idata (scan_init garbage7 (level_sizes (2 ^ 1) 2 (2 ^ 2)) 3 [3, 1, 4]) ! 0) = 2 ^ 2
   \<and> (0::nat) < 2
   \<and> 1 < (level_sizes (2 ^ 1) 2 (2 ^ 2) ! 0 + 2 ^ 1 - 1) div 2 ^ 1
   \<and> dev_buffer (upward_step (2 ^ 1) (level_sizes (2 ^ 1) 2 (2 ^ 2)) 2 0
        (scan_init garbage7 (level_sizes (2 ^ 1) 2 (2 ^ 2)) 3 [3, 1, 4])) ! 0 ! 3 = 11
   \<and> dev_idata (upward_step (2 ^ 1) (level_sizes (2 ^ 1) 2 (2 ^ 2)) 2 0
        (scan_init garbage7 (level_sizes (2 ^ 1) 2 (2 ^ 2)) 3 [3, 1, 4])) ! 1 ! 1 = 11"
proof -
  define sizes where "sizes = level_sizes (2 ^ 1) 2 (2 ^ 2)"
  define s where "s = scan_init garbage7 sizes 3 [3, 1, 4]"
  have sz: "sizes = [4, 2]" unfolding sizes_def by code_simp
  have s0: "dev_idata s ! 0 = [3, 1, 4, 7]" unfolding s_def sz by code_simp
  have h: "(0::nat) < 1" "(1::nat) \<le> 10" by simp_all
  have cs: "count_scans (2 ^ 1) 1 (2 ^ 2) = Some 2" by code_simp
  have dl: "dev_lengths 2 s" unfolding s_def sz by code_simp
  have l0: "length (dev_idata s ! 0) = 2 ^ 2" unfolding s0 by simp
  have i: "(0::nat) < 2" by simp
  have b: "1 < (sizes ! 0 + 2 ^ 1 - 1) div 2 ^ 1" unfolding sz by simp
  have slot: "3 = min ((1 + 1) * 2 ^ 1) (sizes ! 0) - 1" unfolding sz by simp
  have bef: "s = fold (upward_step (2 ^ 1) sizes 2) [0..<0] s" by simp
  note t = group_total_feeds_next_level [OF h cs dl l0 sizes_def bef refl i b slot]
  have ps: "psum (dev_idata s ! 0) (1 * 2 ^ 1) (3 + 1) = 11"
    unfolding s0 by code_simp
  show ?thesis
    using h cs dl l0 i b t ps unfolding sizes_def[symmetric] s_def[symmetric] by simp
qed

text \<open>
  C5 (as amended): for every \<open>n\<close> with \<open>0 < n \<le> 2^30\<close>, the count that \<open>compact\<close> returns
  is \<open>destIndex[n-1] + mask[n-1]\<close>, read at the original last index \<open>n - 1\<close>, where the
  mask is computed from the zero-padded input and \<open>destIndex\<close> is the exclusive prefix
  sum of the mask; it equals the number of nonzero elements of the input.
\<close>

theorem compact_count_from_last_index:
  assumes "0 < sint n" "sint n \<le> 2 ^ 30" "0 < k" "k \<le> 10" "length x = nat (sint n)"
  shows "\<exists>r out cnt. compact_kernels (2 ^ k) garbage n x = Some (Inr r)
      \<and> compact (2 ^ k) garbage n x = Some (Inr (out, cnt))
      \<and> cnt = c_indices r ! (nat (sint n) - 1) + c_bools r ! (nat (sint n) - 1)
      \<and> c_idata r = x @ replicate (unat (n_pad_of n) - nat (sint n)) 0
      \<and> c_bools r = kernMapToBoolean (unat (n_pad_of n)) (c_idata r)
      \<and> c_indices r = excl_scan (c_bools r)
      \<and> sint cnt = int (length (filter (\<lambda>v. v \<noteq> 0) x))"
proof -
  obtain r where r: "compact_kernels (2 ^ k) garbage n x = Some (Inr r)"
     "c_idata r = x @ replicate (unat (n_pad_of n) - nat (sint n)) 0"
     "c_bools r = mask_of (c_idata r)" "c_indices r = excl_scan (c_bools r)"
    using compact_kernels_result[OF assms(1,2,3,5)] by blast
  obtain r' where r': "compact_kernels (2 ^ k) garbage n x = Some (Inr r')"
     "compact (2 ^ k) garbage n x = Some (Inr (take (nat (sint n)) (c_odata r'), of_nat (count_nz x)))"
     "c_indices r' ! (nat (sint n) - 1) + c_bools r' ! (nat (sint n) - 1) = of_nat (count_nz x)"
    using compact_result[OF assms(1,2,3,5)] by blast
  have rr: "r' = r" using r(1) r'(1) by simp
  have l30: "length x \<le> 2 ^ 30" using assms(2,5) by (simp add: nat_le_iff)
  have "length (c_idata r) = unat (n_pad_of n)"
    using n_pad_small(1,3)[OF assms(1,2)] assms(5) by (simp add: r(2))
  then have mb: "c_bools r = kernMapToBoolean (unat (n_pad_of n)) (c_idata r)"
    using kernMapToBoolean_mask[of "c_idata r" "unat (n_pad_of n)"] by (simp add: r(3))
  show ?thesis
  proof (intro exI conjI)
    show "compact_kernels (2 ^ k) garbage n x = Some (Inr r)" by (rule r(1))
    show "compact (2 ^ k) garbage n x = Some (Inr (take (nat (sint n)) (c_odata r), of_nat (count_nz x)))"
      using r'(2) rr by simp
    show "of_nat (count_nz x) = c_indices r ! (nat (sint n) - 1) + c_bools r ! (nat (sint n) - 1)"
      using r'(3) rr by simp
    show "c_idata r = x @ replicate (unat (n_pad_of n) - nat (sint n)) 0" by (rule r(2))
    show "c_bools r = kernMapToBoolean (unat (n_pad_of n)) (c_idata r)" by (rule mb)
    show "c_indices r = excl_scan (c_bools r)" by (rule r(4))
    show "sint (of_nat (count_nz x) :: int32) = int (length (filter (\<lambda>v. v \<noteq> 0) x))"
      using sint_count_nz[OF l30] by (simp add: count_nz_def)
  qed
qed

theorem compact_count_from_last_index_witness:
  "0 < sint (3 :: int32) \<and> sint (3 :: int32) \<le> 2 ^ 30 \<and> (0::nat) < 1 \<and> (1::nat) \<le> 10
   \<and> length [5, 0, 6 :: int32] = nat (sint (3 :: int32))
   \<and> (\<exists>r out cnt. compact_kernels (2 ^ 1) garbage7 3 [5, 0, 6] = Some (Inr r)
      \<and> compact (2 ^ 1) garbage7 3 [5, 0, 6] = Some (Inr (out, cnt))
      \<and> cnt = c_indices r ! (nat (sint (3 :: int32)) - 1) + c_bools r ! (nat (sint (3 :: int32)) - 1)
      \<and> c_idata r = [5, 0, 6] @ replicate (unat (n_pad_of 3) - nat (sint (3 :: int32))) 0
      \<and> c_bools r = kernMapToBoolean (unat (n_pad_of 3)) (c_idata r)
      \<and> c_indices r = excl_scan (c_bools r)
      \<and> sint cnt = int (length (filter (\<lambda>v. v \<noteq> 0) [5, 0, 6 :: int32])))"
proof -
  have h: "0 < sint (3 :: int32)" "sint (3 :: int32) \<le> 2 ^ 30" "(0::nat) < 1" "(1::nat) \<le> 10"
    "length [5, 0, 6 :: int32] = nat (sint (3 :: int32))" by simp_all
  show ?thesis using h compact_count_from_last_index [OF h, of garbage7] by blast
qed

text \<open>For \<open>n = 2^30 + 2\<close> no destination index is computed and no count is returned.\<close>

theorem compact_count_large_n_counterexample:
  "0 < sint (2 ^ 30 + 2 :: int32)
   \<and> length (replicate (2 ^ 30 + 2) (0 :: int32)) = nat (sint (2 ^ 30 + 2 :: int32))
   \<and> compact_kernels (2 ^ 7) garbage7 (2 ^ 30 + 2) (replicate (2 ^ 30 + 2) 0) = Some (Inl AllocationFailed)
   \<and> compact (2 ^ 7) garbage7 (2 ^ 30 + 2) (replicate (2 ^ 30 + 2) 0) = Some (Inl AllocationFailed)"
proof -
  have h: "2 ^ 30 < sint (2 ^ 30 + 2 :: int32)" by simp
  show ?thesis
    using h compact_overflow [OF h, of 7 garbage7] compact_kernels_overflow [OF h, of 7 garbage7]
    by simp
qed

text \<open>
  C6 (as amended): for every \<open>n\<close> with \<open>0 < n \<le> 2^30\<close> (a power of two or not) and every
  input \<open>x\<close>, \<open>scan(n, x)\<close> is the first \<open>n\<close> elements of the scan of \<open>x\<close> extended with zeros
  to the length \<open>n_pad\<close>.
\<close>

theorem scan_of_zero_padded_input:
  assumes "0 < sint n" "sint n \<le> 2 ^ 30" "0 < k" "k \<le> 10" "length x = nat (sint n)"
  shows "\<exists>full. scan (2 ^ k) garbage' (n_pad_of n)
             (x @ replicate (unat (n_pad_of n) - nat (sint n)) 0) = Some (Inr full)
      \<and> scan (2 ^ k) garbage n x = Some (Inr (take (nat (sint n)) full))"
proof -
  define e where "e = ilog2ceil (nat (sint n))"
  note np = n_pad_small[OF assms(1,2), folded e_def]
  have sp: "sint (n_pad_of n) = 2 ^ e" using sint_n_pad_small[OF assms(1,2)] by (simp add: e_def)
  have "(2::int) ^ e \<le> 2 ^ 30" using np(4) by (intro power_increasing) simp_all
  then have p: "0 < sint (n_pad_of n)" "sint (n_pad_of n) \<le> 2 ^ 30" using sp by simp_all
  have "nat (sint (n_pad_of n)) = 2 ^ e" using sp by (simp add: nat_power_eq)
  then have lp: "length (x @ replicate (unat (n_pad_of n) - nat (sint n)) 0) = nat (sint (n_pad_of n))"
    using np(1,3) assms(5) by simp
  have "scan (2 ^ k) garbage' (n_pad_of n) (x @ replicate (unat (n_pad_of n) - nat (sint n)) 0)
      = Some (Inr (excl_scan (x @ replicate (unat (n_pad_of n) - nat (sint n)) 0)))"
    using p assms(3) lp by (rule scan_result)
  moreover have "take (nat (sint n)) (excl_scan (x @ replicate (unat (n_pad_of n) - nat (sint n)) 0))
      = excl_scan x"
    using assms(5) by (rule take_excl_scan_prefix)
  ultimately show ?thesis
    using scan_result[OF assms(1,2,3,5), of garbage] by simp
qed

theorem scan_of_zero_padded_input_witness:
  "0 < sint (5 :: int32) \<and> sint (5 :: int32) \<le> 2 ^ 30 \<and> (0::nat) < 1 \<and> (1::nat) \<le> 10
   \<and> length [3, 1, 4, 1, 5 :: int32] = nat (sint (5 :: int32))
   \<and> (\<exists>full. scan (2 ^ 1) garbage7 (n_pad_of 5)
             ([3, 1, 4, 1, 5] @ replicate (unat (n_pad_of 5) - nat (sint (5 :: int32))) 0) = Some (Inr full)
      \<and> scan (2 ^ 1) garbage7 5 [3, 1, 4, 1, 5] = Some (Inr (take (nat (sint (5 :: int32))) full)))"
proof -
  have h: "0 < sint (5 :: int32)" "sint (5 :: int32) \<le> 2 ^ 30" "(0::nat) < 1" "(1::nat) \<le> 10"
    "length [3, 1, 4, 1, 5 :: int32] = nat (sint (5 :: int32))" by simp_all
  show ?thesis using h scan_of_zero_padded_input [OF h, of garbage7 garbage7] by blast
qed

text \<open>
  For \<open>n = 2^30 + 1\<close>, not a power of two, \<open>scan(n, x)\<close> fails, while the padded length is
  not a positive \<open>int\<close> and the scan of the zero-extended array is the empty no-op.
\<close>

theorem scan_padding_large_n_counterexample:
  "scan (2 ^ 7) garbage7 (2 ^ 30 + 1) (replicate (2 ^ 30 + 1) 0) = Some (Inl AllocationFailed)
   \<and> scan (2 ^ 7) garbage7 (n_pad_of (2 ^ 30 + 1))
        (replicate (2 ^ 30 + 1) 0 @ replicate (unat (n_pad_of (2 ^ 30 + 1)) - nat (sint (2 ^ 30 + 1 :: int32))) 0)
      = Some (Inr [])"
proof -
  have h: "2 ^ 30 < sint (2 ^ 30 + 1 :: int32)" by simp
  have "sint (n_pad_of (2 ^ 30 + 1)) \<le> 0" using n_pad_overflow(2) [OF h] by simp
  then show ?thesis using scan_overflow [OF h, of 7 garbage7] by (simp add: scan_def)
qed

text \<open>
  C7: the claim is that level 0's input buffer of \<open>scan\<close> holds the input followed by
  zeros. In the code the buffer is allocated and the \<open>n\<close> input elements are copied into
  it; the tail keeps what the memory held. For \<open>n = 3\<close>, input \<open>[1, 2, 3]\<close> and device
  memory full of 7s, position 3 holds 7. \<open>compact\<close> zeroes its buffer first and gets
  \<open>[1, 2, 3, 0]\<close>.
\<close>

theorem scan_pad_holds_stale_memory:
  "dev_idata (scan_init garbage7 (level_sizes 2 2 (unat (n_pad_of 3))) (nat (sint (3 :: int32))) [1, 2, 3]) ! 0
     = [1, 2, 3, 7]
   \<and> compact_idata garbage7 (unat (n_pad_of 3)) (nat (sint (3 :: int32))) [1, 2, 3] = [1, 2, 3, 0]
   \<and> count_scans 2 1 (unat (n_pad_of 3)) = Some 2"
  by code_simp

text \<open>
  C8: for every \<open>n \<le> 0\<close> and every input, \<open>compact\<close> returns \<open>n\<close> itself as the count
  (negative \<open>n\<close> included) together with an empty output; no kernel runs, and the call is
  not an error.
\<close>

theorem compact_nonpositive_passes_n:
  "sint n \<le> 0 \<Longrightarrow> compact block_size garbage n idata = Some (Inr ([], n))"
  by (simp add: compact_def)

theorem compact_nonpositive_passes_n_witness:
  "sint (- 3 :: int32) \<le> 0 \<and> compact 128 garbage7 (- 3) [1, 2] = Some (Inr ([], - 3))"
proof -
  have h: "sint (- 3 :: int32) \<le> 0" by simp
  show ?thesis using h compact_nonpositive_passes_n [OF h, of 128 garbage7 "[1, 2]"] by simp
qed

text \<open>
  C9: in a run of \<open>compact\<close> with \<open>n > 0\<close> that reaches the scatter, for every index
  \<open>i < n\<close> with \<open>input[i] \<noteq> 0\<close> the destination \<open>destIndex[i]\<close> lies in \<open>[0, keptCount)\<close>,
  and the destinations of the kept indices are strictly increasing, hence distinct.
\<close>

theorem scatter_destinations_distinct_and_in_range:
  assumes "0 < k" "k \<le> 10" "0 < sint n" "length x = nat (sint n)"
    and run: "compact_kernels (2 ^ k) garbage n x = Some (Inr r)"
             "compact (2 ^ k) garbage n x = Some (Inr (out, cnt))"
    and i: "i < nat (sint n)" "x ! i \<noteq> 0"
  shows "0 \<le> sint (c_indices r ! i) \<and> sint (c_indices r ! i) < sint cnt
    \<and> (\<forall>j. i < j \<and> j < nat (sint n) \<and> x ! j \<noteq> 0 \<longrightarrow> sint (c_indices r ! i) < sint (c_indices r ! j))"
proof -
  have small: "sint n \<le> 2 ^ 30"
  proof (rule ccontr)
    assume "\<not> sint n \<le> 2 ^ 30"
    then have "2 ^ 30 < sint n" by simp
    then show False using compact_kernels_overflow[OF _ assms(1), of n garbage x] run(1) by simp
  qed
  obtain r0 where r0: "compact_kernels (2 ^ k) garbage n x = Some (Inr r0)"
     "c_idata r0 = x @ replicate (unat (n_pad_of n) - nat (sint n)) 0"
     "c_bools r0 = mask_of (c_idata r0)" "c_indices r0 = excl_scan (c_bools r0)"
    using compact_kernels_result[OF assms(3) small assms(1,4)] by blast
  obtain r' where r': "compact_kernels (2 ^ k) garbage n x = Some (Inr r')"
     "compact (2 ^ k) garbage n x = Some (Inr (take (nat (sint n)) (c_odata r'), of_nat (count_nz x)))"
    using compact_result[OF assms(3) small assms(1,4)] by blast
  have cnt: "cnt = of_nat (count_nz x)" using run(2) r'(2) by simp
  define X where "X = c_idata r"
  have rr: "r0 = r" using r0(1) run(1) by simp
  have ind: "c_indices r = excl_scan (mask_of X)" using r0(3,4) rr by (simp add: X_def)
  have X: "X = x @ replicate (unat (n_pad_of n) - nat (sint n)) 0" using r0(2) rr by (simp add: X_def)
  have lX: "length X = unat (n_pad_of n)" "nat (sint n) \<le> length X"
    using n_pad_small(1,3)[OF assms(3) small] assms(4) by (simp_all add: X)
  have "(2::nat) ^ ilog2ceil (nat (sint n)) \<le> 2 ^ 30"
    using n_pad_small(4)[OF assms(3) small] by (intro power_increasing) simp_all
  then have lX30: "length X \<le> 2 ^ 30" using lX(1) n_pad_small(1)[OF assms(3) small] by simp
  have tk: "take (nat (sint n)) X = x" using assms(4) by (simp add: X)
  have nthX: "\<And>j. j < nat (sint n) \<Longrightarrow> X ! j = x ! j" using assms(4) by (simp add: X nth_append)
  have dest: "sint (c_indices r ! j) = int (count_nz (take j X))" if "j < nat (sint n)" for j
  proof -
    have j: "j < length X" using that lX(2) by simp
    have "count_nz (take j X) < 2 ^ 31" using count_nz_take_le[of j X] j lX30 by simp
    then have "sint (of_nat (count_nz (take j X)) :: int32) = int (count_nz (take j X))"
      by (rule sint_of_nat_small)
    then show ?thesis using j by (simp add: ind excl_scan_mask_nth)
  qed
  have l30: "length x \<le> 2 ^ 30" using small assms(4) by (simp add: nat_le_iff)
  have scnt: "sint cnt = int (count_nz x)" unfolding cnt using l30 by (rule sint_count_nz)
  have iX: "i < length X" using i(1) lX(2) by simp
  have step: "count_nz (take (Suc i) X) = count_nz (take i X) + 1"
    using count_nz_take_Suc[OF iX] i nthX by simp
  have "count_nz (take (Suc i) X) \<le> count_nz (take (nat (sint n)) X)"
    using i(1) by (intro count_nz_take_mono) simp
  then have lt: "count_nz (take i X) < count_nz x" using step tk by simp
  have inj: "sint (c_indices r ! i) < sint (c_indices r ! j)"
    if j: "i < j \<and> j < nat (sint n) \<and> x ! j \<noteq> 0" for j
  proof -
    have "count_nz (take (Suc i) X) \<le> count_nz (take j X)"
      using j by (intro count_nz_take_mono) simp
    then show ?thesis using step dest[OF i(1)] dest[of j] j by simp
  qed
  show ?thesis using dest[OF i(1)] scnt lt inj by simp
qed

theorem scatter_destinations_distinct_and_in_range_witness:
  "(0::nat) < 1 \<and> (1::nat) \<le> 10 \<and> 0 < sint (3 :: int32) \<and> length [5, 0, 6 :: int32] = nat (sint (3 :: int32))
   \<and> compact_kernels (2 ^ 1) garbage7 3 [5, 0, 6] =
       Some (Inr \<lparr>c_idata = [5, 0, 6, 0], c_bools = [1, 0, 1, 0], c_indices = [0, 1, 1, 2], c_odata = [5, 6, 7, 7]\<rparr>)
   \<and> compact (2 ^ 1) garbage7 3 [5, 0, 6] = Some (Inr ([5, 6, 7], 2))
   \<and> 0 < nat (sint (3 :: int32)) \<and> [5, 0, 6 :: int32] ! 0 \<noteq> 0
   \<and> 0 \<le> sint ([0, 1, 1, 2 :: int32] ! 0) \<and> sint ([0, 1, 1, 2 :: int32] ! 0) < sint (2 :: int32)
   \<and> (0::nat) < 2 \<and> 2 < nat (sint (3 :: int32)) \<and> [5, 0, 6 :: int32] ! 2 \<noteq> 0
   \<and> sint ([0, 1, 1, 2 :: int32] ! 0) < sint ([0, 1, 1, 2 :: int32] ! 2)"
proof -
  have h: "(0::nat) < 1" "(1::nat) \<le> 10" "0 < sint (3 :: int32)"
    "length [5, 0, 6 :: int32] = nat (sint (3 :: int32))" by simp_all
  have r: "compact_kernels (2 ^ 1) garbage7 3 [5, 0, 6] =
       Some (Inr \<lparr>c_idata = [5, 0, 6, 0], c_bools = [1, 0, 1, 0], c_indices = [0, 1, 1, 2], c_odata = [5, 6, 7, 7]\<rparr>)"
    by code_simp
  have c: "compact (2 ^ 1) garbage7 3 [5, 0, 6] = Some (Inr ([5, 6, 7], 2))"
    by code_simp
  have i: "0 < nat (sint (3 :: int32))" "[5, 0, 6 :: int32] ! 0 \<noteq> 0" by simp_all
  have j: "(0::nat) < 2 \<and> 2 < nat (sint (3 :: int32)) \<and> [5, 0, 6 :: int32] ! 2 \<noteq> 0" by simp
  note t = scatter_destinations_distinct_and_in_range [OF h r c i]
  have "sint ([0, 1, 1, 2 :: int32] ! 0) < sint ([0, 1, 1, 2 :: int32] ! 2)"
    using t j by simp
  then show ?thesis using h r c i j t by simp
qed


end
